theory Spec2Isabelle
  imports Main
begin

section \<open>JavaScript values and objects\<close>

text \<open>
  The values the program handles are untyped at run time (\<^verbatim>\<open>any\<close>): the result of a
  loader, the error a loader throws, and the open-ended fields of an extension descriptor.
  The only operations the program performs on them are the comparison with
  \<^verbatim>\<open>undefined\<close> and the comparison of a property with a string, so numbers are
  represented by the integers among them.
\<close>

datatype jsval =
    JUndefined
  | JNull
  | JBool bool
  | JNum int
  | JStr string
  | JObj "(string \<times> jsval) list"

text \<open>
  An object is the list of its own properties in insertion order, each key once.
\<close>

type_synonym obj = "(string \<times> jsval) list"

text \<open>Property read \<^verbatim>\<open>o.k\<close>: an absent property reads as \<^verbatim>\<open>undefined\<close>.\<close>

fun get_prop :: "obj \<Rightarrow> string \<Rightarrow> jsval" where
  "get_prop [] k = JUndefined"
| "get_prop ((k', v) # ps) k = (if k' = k then v else get_prop ps k)"

text \<open>
  A member \<^verbatim>\<open>k: v\<close> of an object literal that follows a spread \<^verbatim>\<open>...o\<close>: it replaces
  the value of an existing property in place and appends a new property otherwise.
\<close>

fun set_prop :: "string \<Rightarrow> jsval \<Rightarrow> obj \<Rightarrow> obj" where
  "set_prop k v [] = [(k, v)]"
| "set_prop k v ((k', v') # ps) =
     (if k' = k then (k, v) # ps else (k', v') # set_prop k v ps)"

section \<open>Packages\<close>

text \<open>
  \<^verbatim>\<open>IPackageMetadata\<close>, \<^verbatim>\<open>IExtensionInfo\<close> and \<^verbatim>\<open>IPackage\<close>. An extension descriptor is
  an object with string properties \<^verbatim>\<open>hook\<close> and \<^verbatim>\<open>name\<close> and any further properties.
  The loader of a package returns a promise: \<open>Inr v\<close> is a promise fulfilled with \<open>v\<close>,
  \<open>Inl e\<close> one rejected with \<open>e\<close> (or a loader that throws \<open>e\<close>; the \<^verbatim>\<open>await\<close> inside
  \<^verbatim>\<open>try\<close> treats both alike). What a loader answers is taken to depend on the
  descriptor only, not on when or how often it is called. The field \<^verbatim>\<open>id\<close> is
  \<open>pkg_id\<close> here.
\<close>

record IPackageMetadata =
  name :: string
  author :: "string option"
  version :: "string option"
  summary :: "string option"

type_synonym IExtensionInfo = obj

record IPackage =
  pkg_id :: string
  metadata :: IPackageMetadata
  extensions :: "IExtensionInfo list"
  load :: "IExtensionInfo \<Rightarrow> jsval + jsval"

section \<open>The resolver: \<^verbatim>\<open>PluginHooker.getImplementations\<close>\<close>

text \<open>
  The two object literals pushed at lines 82--86 and 88--92:
  \<^verbatim>\<open>{...extInfo, packageId: pkg.id, value: v}\<close> and
  \<^verbatim>\<open>{...extInfo, error: err, packageId: pkg.id}\<close>.
\<close>

definition loaded_extension :: "IExtensionInfo \<Rightarrow> string \<Rightarrow> jsval \<Rightarrow> obj" where
  "loaded_extension extInfo pid v =
     set_prop ''value'' v (set_prop ''packageId'' (JStr pid) extInfo)"

definition errored_extension :: "IExtensionInfo \<Rightarrow> string \<Rightarrow> jsval \<Rightarrow> obj" where
  "errored_extension extInfo pid err =
     set_prop ''packageId'' (JStr pid) (set_prop ''error'' err extInfo)"

text \<open>The inner loop, over the matching descriptors of one package.\<close>

fun load_contents :: "IPackage \<Rightarrow> IExtensionInfo list \<Rightarrow> obj list \<Rightarrow> obj list" where
  "load_contents pkg [] exts = exts"
| "load_contents pkg (extInfo # contents) exts =
     (case load pkg extInfo of
        Inr v \<Rightarrow> load_contents pkg contents (exts @ [loaded_extension extInfo (pkg_id pkg) v])
      | Inl err \<Rightarrow> load_contents pkg contents (exts @ [errored_extension extInfo (pkg_id pkg) err]))"

text \<open>The filter of line 78: \<^verbatim>\<open>extInfo.hook === hook\<close>.\<close>

definition implements :: "string \<Rightarrow> IExtensionInfo \<Rightarrow> bool" where
  "implements hook extInfo = (get_prop extInfo ''hook'' = JStr hook)"

text \<open>The outer loop, over the packages.\<close>

fun load_packages :: "IPackage list \<Rightarrow> string \<Rightarrow> obj list \<Rightarrow> obj list" where
  "load_packages [] hook exts = exts"
| "load_packages (pkg # packages) hook exts =
     load_packages packages hook
       (load_contents pkg (filter (implements hook) (extensions pkg)) exts)"

text \<open>
  The function is \<^verbatim>\<open>async\<close>: its result is the outcome of the promise it returns,
  \<open>Inr\<close> the list it is fulfilled with, \<open>Inl\<close> the error it would be rejected with.
  Every \<^verbatim>\<open>await\<close> of the body stands inside the \<^verbatim>\<open>try\<close>.
\<close>

definition getImplementations :: "IPackage list \<Rightarrow> string \<Rightarrow> jsval + obj list" where
  "getImplementations packages hook = Inr (load_packages packages hook [])"

text \<open>The predicates \<^verbatim>\<open>isLoaded\<close> and \<^verbatim>\<open>isErrored\<close>.\<close>

definition isLoaded :: "obj \<Rightarrow> bool" where
  "isLoaded ext = (get_prop ext ''value'' \<noteq> JUndefined)"

definition isErrored :: "obj \<Rightarrow> bool" where
  "isErrored ext = (get_prop ext ''error'' \<noteq> JUndefined)"

section \<open>The objects of the stream library\<close>

text \<open>
  The class uses three things of RxJS: \<^verbatim>\<open>BehaviorSubject\<close>, \<^verbatim>\<open>map\<close> and \<^verbatim>\<open>mergeMap\<close>
  (with a function that returns a promise). They are modelled by what the library
  documents of them:
  \<^item> a \<^verbatim>\<open>BehaviorSubject\<close> holds one value, the one it was created with and then the
    one last passed to \<^verbatim>\<open>next\<close>; \<^verbatim>\<open>next\<close> stores the value and hands it to every
    subscriber, in subscription order; a new subscriber is handed the held value at once;
  \<^item> \<^verbatim>\<open>map f\<close> hands \<open>f x\<close> on at once for every \<open>x\<close> it is handed;
  \<^item> \<^verbatim>\<open>mergeMap f\<close> starts \<open>f x\<close> for every \<open>x\<close> it is handed and hands the promise's
    value on when that promise is fulfilled, whichever other promises are still pending;
    a rejected promise ends the subscription with the error.
  Subjects live in a store and are named by their address, since the instance, the
  listener given to the finder and every observable share them.
\<close>

record BehaviorSubject =
  bs_value :: "IPackage list"
  observers :: "nat list"

datatype operator = MergeMapImplementations string | MapMetadata

datatype observable = Observable nat operator

datatype emission = Extensions "obj list" | Metadata "IPackageMetadata list"

record subscriber =
  source :: nat
  oper :: operator
  received :: "emission list"
  failed :: "jsval option"

text \<open>A promise returned by \<^verbatim>\<open>getImplementations\<close> inside \<^verbatim>\<open>mergeMap\<close>.\<close>

record promise =
  target :: nat
  outcome :: "jsval + obj list"
  settled :: bool

section \<open>The instance and its finder\<close>

text \<open>
  \<^verbatim>\<open>activeWatch\<close> pairs the cancellation function the finder returned with the subject.
  The finder's side of a \<^verbatim>\<open>finder.watch(listener)\<close> call is the subject the listener
  \<^verbatim>\<open>(packages) => subject.next(packages)\<close> closes over, and whether the call has been
  cancelled; the cancellation function is named by the index of the call.
\<close>

record watch_session =
  close :: nat
  subject :: nat

record finder_watch =
  listener_subject :: nat
  cancelled :: bool

record system =
  activeWatch :: "watch_session option"
  subjects :: "BehaviorSubject list"
  finder_watches :: "finder_watch list"
  find_calls :: nat
  observables :: "observable list"
  subscribers :: "subscriber list"
  promises :: "promise list"

text \<open>A new instance, \<^verbatim>\<open>new PluginHooker(finder)\<close>, with a finder nobody has called yet.\<close>

definition initial :: system where
  "initial = \<lparr>activeWatch = None, subjects = [], finder_watches = [], find_calls = 0,
              observables = [], subscribers = [], promises = []\<rparr>"

text \<open>The private getter \<^verbatim>\<open>packageSubject\<close> (lines 146--155).\<close>

definition packageSubject :: "system \<Rightarrow> nat \<times> system" where
  "packageSubject s =
     (case activeWatch s of
        Some w \<Rightarrow> (subject w, s)
      | None \<Rightarrow>
          (let subj = length (subjects s);
               cl = length (finder_watches s)
           in (subj,
               s\<lparr>subjects := subjects s @ [\<lparr>bs_value = [], observers = []\<rparr>],
                 finder_watches :=
                   finder_watches s @ [\<lparr>listener_subject = subj, cancelled = False\<rparr>],
                 activeWatch := Some \<lparr>close = cl, subject = subj\<rparr>\<rparr>)))"

text \<open>\<^verbatim>\<open>watch(hook)\<close> (lines 107--110) and the getter \<^verbatim>\<open>packagesStream\<close> (134--137).\<close>

definition watch :: "string \<Rightarrow> system \<Rightarrow> observable \<times> system" where
  "watch hook s =
     (case packageSubject s of
        (subj, s') \<Rightarrow> (Observable subj (MergeMapImplementations hook), s'))"

definition packagesStream :: "system \<Rightarrow> observable \<times> system" where
  "packagesStream s =
     (case packageSubject s of (subj, s') \<Rightarrow> (Observable subj MapMetadata, s'))"

text \<open>\<^verbatim>\<open>stopWatching()\<close> (lines 123--128) and the getter \<^verbatim>\<open>isWatching\<close> (142--144).\<close>

definition cancel :: "nat \<Rightarrow> finder_watch list \<Rightarrow> finder_watch list" where
  "cancel c ws = (if c < length ws then ws[c := (ws ! c)\<lparr>cancelled := True\<rparr>] else ws)"

definition stopWatching :: "system \<Rightarrow> system" where
  "stopWatching s =
     (case activeWatch s of
        Some w \<Rightarrow> s\<lparr>finder_watches := cancel (close w) (finder_watches s), activeWatch := None\<rparr>
      | None \<Rightarrow> s)"

definition isWatching :: "system \<Rightarrow> bool" where
  "isWatching s = (activeWatch s \<noteq> None)"

text \<open>
  \<^verbatim>\<open>load(hook)\<close> (lines 116--118). \<open>found\<close> is the outcome of the promise that
  \<^verbatim>\<open>this.finder.find()\<close> returns at this call; the call is counted.
\<close>

definition PluginHooker_load ::
    "string \<Rightarrow> jsval + IPackage list \<Rightarrow> system \<Rightarrow> (jsval + obj list) \<times> system" where
  "PluginHooker_load hook found s =
     ((case found of
         Inl err \<Rightarrow> Inl err
       | Inr packages \<Rightarrow> getImplementations packages hook),
      s\<lparr>find_calls := find_calls s + 1\<rparr>)"

section \<open>Subscribers, the finder's callbacks and the promises\<close>

text \<open>
  A subscriber of an observable the class returned is handed a package list by the
  subject: through \<^verbatim>\<open>map\<close> it receives the metadata at once, through \<^verbatim>\<open>mergeMap\<close> a
  promise of \<^verbatim>\<open>getImplementations\<close> is started for it.
\<close>

definition deliver :: "IPackage list \<Rightarrow> nat \<Rightarrow> system \<Rightarrow> system" where
  "deliver packages sid s =
     (if sid < length (subscribers s) \<and> failed (subscribers s ! sid) = None then
        (case oper (subscribers s ! sid) of
           MapMetadata \<Rightarrow>
             s\<lparr>subscribers := (subscribers s)[sid := (subscribers s ! sid)
                  \<lparr>received := received (subscribers s ! sid) @
                                [Metadata (map metadata packages)]\<rparr>]\<rparr>
         | MergeMapImplementations hook \<Rightarrow>
             s\<lparr>promises := promises s @
                  [\<lparr>target = sid, outcome = getImplementations packages hook,
                    settled = False\<rparr>]\<rparr>)
      else s)"

text \<open>\<^verbatim>\<open>subject.next(packages)\<close>.\<close>

definition subject_next :: "nat \<Rightarrow> IPackage list \<Rightarrow> system \<Rightarrow> system" where
  "subject_next subj packages s =
     (if subj < length (subjects s) then
        fold (deliver packages) (observers (subjects s ! subj))
          (s\<lparr>subjects := (subjects s)[subj := (subjects s ! subj)\<lparr>bs_value := packages\<rparr>]\<rparr>)
      else s)"

text \<open>
  \<^verbatim>\<open>observable.subscribe(...)\<close> by a consumer. The result is the new subscriber's number.
  Every observable the class returns names a subject of the store. Consumers stay
  subscribed: the class has no part in a consumer's unsubscribing.
\<close>

definition subscribe :: "observable \<Rightarrow> system \<Rightarrow> nat \<times> system" where
  "subscribe ob s =
     (case ob of Observable subj op \<Rightarrow>
        (let sid = length (subscribers s) in
         if subj < length (subjects s) then
           (sid,
            deliver (bs_value (subjects s ! subj)) sid
              (s\<lparr>subscribers := subscribers s @
                    [\<lparr>source = subj, oper = op, received = [], failed = None\<rparr>],
                 subjects := (subjects s)[subj := (subjects s ! subj)
                    \<lparr>observers := observers (subjects s ! subj) @ [sid]\<rparr>]\<rparr>))
         else (sid, s)))"

text \<open>
  The finder invokes the listener of its \<open>c\<close>-th \<^verbatim>\<open>watch\<close> call with a package list. A
  cancelled call invokes nothing any more (the contract of \<^verbatim>\<open>WatchCancellationFunction\<close>).
  A finder that calls the listener inside \<^verbatim>\<open>watch\<close> itself is a finder that calls it
  right after: the listener touches nothing but the subject.
\<close>

definition finder_emits :: "nat \<Rightarrow> IPackage list \<Rightarrow> system \<Rightarrow> system" where
  "finder_emits c packages s =
     (if c < length (finder_watches s) \<and> \<not> cancelled (finder_watches s ! c) then
        subject_next (listener_subject (finder_watches s ! c)) packages s
      else s)"

text \<open>The \<open>p\<close>-th promise started by a \<^verbatim>\<open>mergeMap\<close> settles.\<close>

definition settle :: "nat \<Rightarrow> system \<Rightarrow> system" where
  "settle p s =
     (if p < length (promises s) \<and> \<not> settled (promises s ! p) then
        (let pr = promises s ! p;
             sid = target pr;
             s1 = s\<lparr>promises := (promises s)[p := pr\<lparr>settled := True\<rparr>]\<rparr>
         in if sid < length (subscribers s) \<and> failed (subscribers s ! sid) = None then
              (case outcome pr of
                 Inr exts \<Rightarrow>
                   s1\<lparr>subscribers := (subscribers s)[sid := (subscribers s ! sid)
                        \<lparr>received := received (subscribers s ! sid) @ [Extensions exts]\<rparr>]\<rparr>
               | Inl err \<Rightarrow>
                   s1\<lparr>subscribers := (subscribers s)[sid := (subscribers s ! sid)
                        \<lparr>failed := Some err\<rparr>]\<rparr>)
            else s1)
      else s)"

section \<open>Histories\<close>

text \<open>
  What can happen to an instance, one event at a time: the calls of its public members,
  a consumer subscribing to the \<open>n\<close>-th observable the instance returned, the finder
  calling a listener, a promise settling.
\<close>

datatype action =
    Watch string
  | PackagesStream
  | StopWatching
  | Load string "jsval + IPackage list"
  | Subscribe nat
  | FinderEmits nat "IPackage list"
  | Settle nat

fun exec :: "action \<Rightarrow> system \<Rightarrow> system" where
  "exec (Watch hook) s =
     (case watch hook s of (ob, s') \<Rightarrow> s'\<lparr>observables := observables s' @ [ob]\<rparr>)"
| "exec PackagesStream s =
     (case packagesStream s of (ob, s') \<Rightarrow> s'\<lparr>observables := observables s' @ [ob]\<rparr>)"
| "exec StopWatching s = stopWatching s"
| "exec (Load hook found) s = snd (PluginHooker_load hook found s)"
| "exec (Subscribe n) s =
     (if n < length (observables s) then snd (subscribe (observables s ! n) s) else s)"
| "exec (FinderEmits c packages) s = finder_emits c packages s"
| "exec (Settle p) s = settle p s"

definition run :: "action list \<Rightarrow> system \<Rightarrow> system" where
  "run as s = fold exec as s"

section \<open>What the resolver is to compute\<close>

text \<open>
  The descriptors of a package list that implement a hook, each with its package: package
  after package in the order of the list, and inside a package in the order of its
  \<^verbatim>\<open>extensions\<close>.
\<close>

definition matching_descriptors ::
    "IPackage list \<Rightarrow> string \<Rightarrow> (IPackage \<times> IExtensionInfo) list" where
  "matching_descriptors packages hook =
     concat (map (\<lambda>pkg. map (Pair pkg) (filter (implements hook) (extensions pkg))) packages)"

text \<open>The body of the inner loop: what one descriptor is resolved to.\<close>

definition resolve_one :: "IPackage \<Rightarrow> IExtensionInfo \<Rightarrow> obj" where
  "resolve_one pkg extInfo =
     (case load pkg extInfo of
        Inr v \<Rightarrow> loaded_extension extInfo (pkg_id pkg) v
      | Inl err \<Rightarrow> errored_extension extInfo (pkg_id pkg) err)"

section \<open>Example packages\<close>

text \<open>A loader that fulfils every promise with \<open>v\<close>, and one that rejects every one with \<open>err\<close>.\<close>

definition resolves_with :: "jsval \<Rightarrow> IExtensionInfo \<Rightarrow> jsval + jsval" where
  "resolves_with v extInfo = Inr v"

definition rejects_with :: "jsval \<Rightarrow> IExtensionInfo \<Rightarrow> jsval + jsval" where
  "rejects_with err extInfo = Inl err"

definition meta :: "string \<Rightarrow> IPackageMetadata" where
  "meta n = \<lparr>name = n, author = None, version = None, summary = None\<rparr>"

definition render_x :: IExtensionInfo where
  "render_x = [(''hook'', JStr ''render''), (''name'', JStr ''x'')]"

definition render_y :: IExtensionInfo where
  "render_y = [(''hook'', JStr ''render''), (''name'', JStr ''y'')]"

definition lint_z :: IExtensionInfo where
  "lint_z = [(''hook'', JStr ''lint''), (''name'', JStr ''z'')]"

definition render_own_id :: IExtensionInfo where
  "render_own_id = [(''hook'', JStr ''render''), (''name'', JStr ''x''), (''packageId'', JStr ''mine'')]"

definition render_own_error :: IExtensionInfo where
  "render_own_error = [(''hook'', JStr ''render''), (''name'', JStr ''x''), (''error'', JStr ''stale'')]"

definition pkgA :: IPackage where
  "pkgA = \<lparr>pkg_id = ''pkgA'', metadata = meta ''A'', extensions = [lint_z, render_x],
            load = resolves_with (JStr ''R1'')\<rparr>"

definition pkgB :: IPackage where
  "pkgB = \<lparr>pkg_id = ''pkgB'', metadata = meta ''B'', extensions = [render_y],
            load = rejects_with (JStr ''boom'')\<rparr>"

definition pkgC :: IPackage where
  "pkgC = \<lparr>pkg_id = ''pkgC'', metadata = meta ''C'', extensions = [render_own_id],
            load = resolves_with (JStr ''R1'')\<rparr>"

definition pkgD :: IPackage where
  "pkgD = \<lparr>pkg_id = ''pkgD'', metadata = meta ''D'', extensions = [render_own_error],
            load = resolves_with JUndefined\<rparr>"

definition pkgE :: IPackage where
  "pkgE = \<lparr>pkg_id = ''pkgE'', metadata = meta ''E'', extensions = [render_x],
            load = resolves_with JUndefined\<rparr>"

section \<open>Histories: kinds of events, reachable states, pending promises\<close>

text \<open>
  \<open>demands\<close> holds of the calls that read the private getter \<^verbatim>\<open>packageSubject\<close>;
  \<open>finder_event\<close> of the finder calling a listener.
\<close>

fun demands :: "action \<Rightarrow> bool" where
  "demands (Watch hook) = True"
| "demands PackagesStream = True"
| "demands a = False"

fun finder_event :: "action \<Rightarrow> bool" where
  "finder_event (FinderEmits c packages) = True"
| "finder_event a = False"

text \<open>
  What holds of every state an instance can reach (\<open>well_formed\<close>): the session names a
  \<^verbatim>\<open>finder.watch\<close> call that is not cancelled and whose listener feeds the session's
  subject; a \<^verbatim>\<open>finder.watch\<close> call that is not cancelled is the session's; listeners
  and observables name subjects of the store; the observers of a subject are
  subscribers, each once; no subscriber has been ended by an error; every promise is one
  of \<^verbatim>\<open>getImplementations\<close> for a subscriber.
\<close>

definition wf_session :: "system \<Rightarrow> bool" where
  "wf_session s =
     (case activeWatch s of
        None \<Rightarrow> True
      | Some w \<Rightarrow> close w < length (finder_watches s)
                 \<and> finder_watches s ! close w = \<lparr>listener_subject = subject w, cancelled = False\<rparr>)"

definition wf_live :: "system \<Rightarrow> bool" where
  "wf_live s =
     (\<forall>c < length (finder_watches s). \<not> cancelled (finder_watches s ! c) \<longrightarrow>
        (\<exists>w. activeWatch s = Some w \<and> close w = c))"

definition wf_listeners :: "system \<Rightarrow> bool" where
  "wf_listeners s =
     (\<forall>c < length (finder_watches s). listener_subject (finder_watches s ! c) < length (subjects s))"

definition wf_observables :: "system \<Rightarrow> bool" where
  "wf_observables s =
     (\<forall>ob \<in> set (observables s). case ob of Observable subj op \<Rightarrow> subj < length (subjects s))"

definition wf_observers :: "system \<Rightarrow> bool" where
  "wf_observers s =
     (\<forall>subj < length (subjects s).
        distinct (observers (subjects s ! subj))
      \<and> (\<forall>sid \<in> set (observers (subjects s ! subj)). sid < length (subscribers s)))"

definition wf_subscribers :: "system \<Rightarrow> bool" where
  "wf_subscribers s = (\<forall>sid < length (subscribers s). failed (subscribers s ! sid) = None)"

definition wf_promises :: "system \<Rightarrow> bool" where
  "wf_promises s =
     (\<forall>p \<in> set (promises s). target p < length (subscribers s) \<and> (\<exists>exts. outcome p = Inr exts))"

definition well_formed :: "system \<Rightarrow> bool" where
  "well_formed s = (wf_session s \<and> wf_live s \<and> wf_listeners s \<and> wf_observables s \<and> wf_observers s
           \<and> wf_subscribers s \<and> wf_promises s)"

text \<open>
  The outcomes of the promises started for a subscriber that have not settled yet, oldest
  first; and the settling of the oldest of them.
\<close>

definition pending_for :: "nat \<Rightarrow> system \<Rightarrow> (jsval + obj list) list" where
  "pending_for sid s =
     map outcome (filter (\<lambda>p. target p = sid \<and> \<not> settled p) (promises s))"



text \<open>
  The subject \<^verbatim>\<open>packageSubject\<close> returns in a state: the session's, or the one it is
  about to create. A \<^verbatim>\<open>finder.watch\<close> call is live when it has not been cancelled.
\<close>

definition shared_subject :: "system \<Rightarrow> nat" where
  "shared_subject s = (case activeWatch s of Some w \<Rightarrow> subject w | None \<Rightarrow> length (subjects s))"

definition live_watch :: "nat \<Rightarrow> system \<Rightarrow> bool" where
  "live_watch c s = (c < length (finder_watches s) \<and> \<not> cancelled (finder_watches s ! c))"

text \<open>
  What holds of an instance as long as the finder has called no listener (\<open>quiet\<close>):
  every subject holds the empty list it was created with, every promise is one of the
  empty package list, a subscriber through \<^verbatim>\<open>map\<close> has received the empty metadata list
  and nothing else, and a subscriber through \<^verbatim>\<open>mergeMap\<close> has either one promise
  pending and nothing received, or no promise pending and the empty list received.
\<close>

definition quiet :: "system \<Rightarrow> bool" where
  "quiet s =
     ((\<forall>b \<in> set (subjects s). bs_value b = [])
      \<and> (\<forall>p \<in> set (promises s). outcome p = Inr []
            \<and> (\<exists>hook. oper (subscribers s ! target p) = MergeMapImplementations hook))
      \<and> (\<forall>sid < length (subscribers s).
            case oper (subscribers s ! sid) of
              MapMetadata \<Rightarrow> received (subscribers s ! sid) = [Metadata []]
            | MergeMapImplementations hook \<Rightarrow>
                (received (subscribers s ! sid) = [] \<and> pending_for sid s = [Inr []])
              \<or> (received (subscribers s ! sid) = [Extensions []] \<and> pending_for sid s = [])))"


definition attached :: "nat \<Rightarrow> string \<Rightarrow> nat \<Rightarrow> system \<Rightarrow> bool" where
  "attached sid hook c s =
     (live_watch c s
      \<and> sid \<in> set (observers (subjects s ! listener_subject (finder_watches s ! c)))
      \<and> oper (subscribers s ! sid) = MergeMapImplementations hook)"

section \<open>Objects\<close>

lemmas example_defs = pkgA_def pkgB_def pkgC_def pkgD_def pkgE_def meta_def render_x_def render_y_def lint_z_def
  render_own_id_def render_own_error_def resolves_with_def rejects_with_def

lemma get_set_same: "get_prop (set_prop k v ob) k = v"
  by (induction ob) auto

lemma get_set_other: "k' \<noteq> k \<Longrightarrow> get_prop (set_prop k v ob) k' = get_prop ob k'"
  by (induction ob) auto

lemma get_prop_map_of: "get_prop ob k = (case map_of ob k of None \<Rightarrow> JUndefined | Some v \<Rightarrow> v)"
  by (induction ob) auto

lemma map_of_set_prop: "map_of (set_prop k v ob) = (map_of ob)(k \<mapsto> v)"
  by (induction ob) auto

lemma keys_set_prop: "fst ` set (set_prop k v ob) = insert k (fst ` set ob)"
proof -
  have "dom (map_of (set_prop k v ob)) = insert k (dom (map_of ob))"
    by (simp add: map_of_set_prop)
  then show ?thesis by (simp add: dom_map_of_conv_image_fst)
qed

section \<open>The resolver\<close>

lemma load_contents_map: "load_contents pkg contents exts = exts @ map (resolve_one pkg) contents"
  by (induction contents arbitrary: exts) (auto simp: resolve_one_def split: sum.splits)

lemma load_packages_map:
  "load_packages packages hook exts =
     exts @ map (\<lambda>(pkg, extInfo). resolve_one pkg extInfo) (matching_descriptors packages hook)"
  by (induction packages arbitrary: exts) (auto simp: matching_descriptors_def load_contents_map comp_def)

lemma getImplementations_map:
  "getImplementations packages hook =
     Inr (map (\<lambda>(pkg, extInfo). resolve_one pkg extInfo) (matching_descriptors packages hook))"
  by (simp add: getImplementations_def load_packages_map)

lemma set_matching_descriptors:
  "set (matching_descriptors packages hook) =
     {(pkg, extInfo). pkg \<in> set packages \<and> extInfo \<in> set (extensions pkg) \<and> implements hook extInfo}"
  by (auto simp: matching_descriptors_def)

lemma resolve_one_packageId: "get_prop (resolve_one pkg extInfo) ''packageId'' = JStr (pkg_id pkg)"
  by (simp add: resolve_one_def loaded_extension_def errored_extension_def get_set_same get_set_other split: sum.splits)

lemma resolve_one_other:
  "k \<noteq> ''packageId'' \<Longrightarrow> k \<noteq> ''value'' \<Longrightarrow> k \<noteq> ''error'' \<Longrightarrow>
   get_prop (resolve_one pkg extInfo) k = get_prop extInfo k"
  by (simp add: resolve_one_def loaded_extension_def errored_extension_def get_set_other split: sum.splits)

lemma resolve_one_implements: "implements hook extInfo \<Longrightarrow> implements hook (resolve_one pkg extInfo)"
  by (simp add: implements_def resolve_one_other)


lemma resolve_one_keys: "fst ` set extInfo \<subseteq> fst ` set (resolve_one pkg extInfo)"
  by (cases "load pkg extInfo")
     (auto simp: resolve_one_def loaded_extension_def errored_extension_def keys_set_prop)

lemma resolve_one_cases:
  "case load pkg extInfo of
     Inl err \<Rightarrow> resolve_one pkg extInfo = errored_extension extInfo (pkg_id pkg) err
                \<and> get_prop (resolve_one pkg extInfo) ''error'' = err
   | Inr v \<Rightarrow> resolve_one pkg extInfo = loaded_extension extInfo (pkg_id pkg) v
              \<and> get_prop (resolve_one pkg extInfo) ''value'' = v"
  by (cases "load pkg extInfo")
     (simp_all add: resolve_one_def loaded_extension_def errored_extension_def
        get_set_same get_set_other)

text \<open>
  Claim C1, as the program has it. \<^verbatim>\<open>getImplementations\<close> returns one entry for every
  descriptor whose \<^verbatim>\<open>hook\<close> is the hook asked for and for no other descriptor, in the
  order of the packages and, inside a package, of its descriptors. An entry has the
  hook asked for, the \<^verbatim>\<open>id\<close> of its package as \<^verbatim>\<open>packageId\<close>, every property name of
  its descriptor, and the descriptor's value under every name but \<^verbatim>\<open>packageId\<close>,
  \<^verbatim>\<open>value\<close> and \<^verbatim>\<open>error\<close>.
\<close>

theorem C1_resolves_matching_in_order:
  "getImplementations packages hook =
     Inr (map (\<lambda>(pkg, extInfo). resolve_one pkg extInfo) (matching_descriptors packages hook))
   \<and> (\<forall>pkg extInfo. (pkg, extInfo) \<in> set (matching_descriptors packages hook) \<longleftrightarrow>
         pkg \<in> set packages \<and> extInfo \<in> set (extensions pkg) \<and> get_prop extInfo ''hook'' = JStr hook)
   \<and> (\<forall>pkg extInfo. (pkg, extInfo) \<in> set (matching_descriptors packages hook) \<longrightarrow>
         get_prop (resolve_one pkg extInfo) ''hook'' = JStr hook
       \<and> get_prop (resolve_one pkg extInfo) ''packageId'' = JStr (pkg_id pkg)
       \<and> fst ` set extInfo \<subseteq> fst ` set (resolve_one pkg extInfo)
       \<and> (\<forall>k. k \<noteq> ''packageId'' \<and> k \<noteq> ''value'' \<and> k \<noteq> ''error'' \<longrightarrow>
              get_prop (resolve_one pkg extInfo) k = get_prop extInfo k))"
proof (intro conjI allI impI)
  show "getImplementations packages hook =
     Inr (map (\<lambda>(pkg, extInfo). resolve_one pkg extInfo) (matching_descriptors packages hook))"
    by (rule getImplementations_map)
next
  fix pkg extInfo
  show "(pkg, extInfo) \<in> set (matching_descriptors packages hook) \<longleftrightarrow>
         pkg \<in> set packages \<and> extInfo \<in> set (extensions pkg) \<and> get_prop extInfo ''hook'' = JStr hook"
    by (simp add: set_matching_descriptors implements_def)
next
  fix pkg extInfo
  assume "(pkg, extInfo) \<in> set (matching_descriptors packages hook)"
  then have "implements hook extInfo" by (simp add: set_matching_descriptors)
  then have "implements hook (resolve_one pkg extInfo)" by (rule resolve_one_implements)
  then show "get_prop (resolve_one pkg extInfo) ''hook'' = JStr hook" by (simp add: implements_def)
next
  fix pkg extInfo
  show "get_prop (resolve_one pkg extInfo) ''packageId'' = JStr (pkg_id pkg)"
    by (rule resolve_one_packageId)
next
  fix pkg extInfo
  show "fst ` set extInfo \<subseteq> fst ` set (resolve_one pkg extInfo)" by (rule resolve_one_keys)
next
  fix pkg extInfo k
  assume "k \<noteq> ''packageId'' \<and> k \<noteq> ''value'' \<and> k \<noteq> ''error''"
  then show "get_prop (resolve_one pkg extInfo) k = get_prop extInfo k"
    by (simp add: resolve_one_other)
qed

text \<open>
  C1 on two packages: the first has a descriptor of another hook before the one asked
  for and loads it, the loader of the second fails.
\<close>

theorem C1_resolves_matching_in_order_witness:
  "getImplementations [pkgA, pkgB] ''render'' =
     Inr [[(''hook'', JStr ''render''), (''name'', JStr ''x''), (''packageId'', JStr ''pkgA''),
           (''value'', JStr ''R1'')],
          [(''hook'', JStr ''render''), (''name'', JStr ''y''), (''error'', JStr ''boom''),
           (''packageId'', JStr ''pkgB'')]]
   \<and> (pkgB, render_y) \<in> set (matching_descriptors [pkgA, pkgB] ''render'')
   \<and> get_prop (resolve_one pkgB render_y) ''name'' = JStr ''y''
   \<and> get_prop (resolve_one pkgB render_y) ''packageId'' = JStr ''pkgB''"
proof -
  have m: "matching_descriptors [pkgA, pkgB] ''render'' = [(pkgA, render_x), (pkgB, render_y)]"
    by (simp add: matching_descriptors_def implements_def example_defs)
  have n: "''name'' \<noteq> ''packageId'' \<and> ''name'' \<noteq> ''value'' \<and> ''name'' \<noteq> ''error''" by simp
  note t = C1_resolves_matching_in_order [of "[pkgA, pkgB]" "''render''"]
  from t have a: "getImplementations [pkgA, pkgB] ''render'' =
     Inr (map (\<lambda>(pkg, extInfo). resolve_one pkg extInfo) (matching_descriptors [pkgA, pkgB] ''render''))"
    by (rule conjunct1)
  have b: "(pkgB, render_y) \<in> set (matching_descriptors [pkgA, pkgB] ''render'')" by (simp add: m)
  note u = t [THEN conjunct2, THEN conjunct2, rule_format, OF b]
  from u n have c: "get_prop (resolve_one pkgB render_y) ''name'' = get_prop render_y ''name''"
    by simp
  from u have d: "get_prop (resolve_one pkgB render_y) ''packageId'' = JStr (pkg_id pkgB)"
    by simp
  have ra: "resolve_one pkgA render_x =
      [(''hook'', JStr ''render''), (''name'', JStr ''x''), (''packageId'', JStr ''pkgA''),
       (''value'', JStr ''R1'')]"
    by (simp add: resolve_one_def loaded_extension_def example_defs)
  have rb: "resolve_one pkgB render_y =
      [(''hook'', JStr ''render''), (''name'', JStr ''y''), (''error'', JStr ''boom''),
       (''packageId'', JStr ''pkgB'')]"
    by (simp add: resolve_one_def errored_extension_def example_defs)
  from a have a': "getImplementations [pkgA, pkgB] ''render'' =
      Inr [resolve_one pkgA render_x, resolve_one pkgB render_y]"
    unfolding m by simp
  have y: "get_prop render_y ''name'' = JStr ''y''" "pkg_id pkgB = ''pkgB''"
    by (simp_all add: render_y_def pkgB_def)
  from a' b c d show ?thesis
    unfolding y ra rb by simp
qed

text \<open>
  Claim C1 as the specification states it says that an entry carries the fields of its
  descriptor. A descriptor may have a property named \<^verbatim>\<open>packageId\<close> (its index signature
  allows any name); the object literal of line 82 writes \<^verbatim>\<open>packageId: pkg.id\<close> after the
  spread, so the entry has the id of the package there and the descriptor's own value is
  gone.
\<close>

theorem C1_descriptor_packageId_overwritten:
  "getImplementations [pkgC] ''render'' =
     Inr [[(''hook'', JStr ''render''), (''name'', JStr ''x''), (''packageId'', JStr ''pkgC''),
           (''value'', JStr ''R1'')]]
   \<and> extensions pkgC = [render_own_id]
   \<and> get_prop render_own_id ''packageId'' = JStr ''mine''
   \<and> get_prop [(''hook'', JStr ''render''), (''name'', JStr ''x''), (''packageId'', JStr ''pkgC''),
           (''value'', JStr ''R1'')] ''packageId'' \<noteq> JStr ''mine''"
  by (simp add: getImplementations_def example_defs implements_def loaded_extension_def)

text \<open>
  Claim C2. Whatever the loaders do, the promise of \<^verbatim>\<open>getImplementations\<close> is fulfilled,
  never rejected, with a list that has one entry for every matching descriptor, at the
  descriptor's position: the errored entry with the loader's error where the loader
  failed, the loaded entry with the loader's value where it succeeded. A failure
  changes no other entry.
\<close>

theorem C2_load_failure_isolated:
  "\<exists>exts. getImplementations packages hook = Inr exts
     \<and> length exts = length (matching_descriptors packages hook)
     \<and> (\<forall>i < length (matching_descriptors packages hook).
          case matching_descriptors packages hook ! i of
            (pkg, extInfo) \<Rightarrow>
              (case load pkg extInfo of
                 Inl err \<Rightarrow> exts ! i = errored_extension extInfo (pkg_id pkg) err
                            \<and> get_prop (exts ! i) ''error'' = err
               | Inr v \<Rightarrow> exts ! i = loaded_extension extInfo (pkg_id pkg) v
                          \<and> get_prop (exts ! i) ''value'' = v))"
proof (intro exI conjI allI impI)
  show "getImplementations packages hook =
          Inr (map (\<lambda>(pkg, extInfo). resolve_one pkg extInfo) (matching_descriptors packages hook))"
    by (rule getImplementations_map)
next
  show "length (map (\<lambda>(pkg, extInfo). resolve_one pkg extInfo) (matching_descriptors packages hook)) =
          length (matching_descriptors packages hook)"
    by simp
next
  fix i
  assume i: "i < length (matching_descriptors packages hook)"
  obtain pkg extInfo where p: "matching_descriptors packages hook ! i = (pkg, extInfo)"
    by (cases "matching_descriptors packages hook ! i")
  from i p have "map (\<lambda>(pkg, extInfo). resolve_one pkg extInfo) (matching_descriptors packages hook) ! i =
      resolve_one pkg extInfo"
    by simp
  with resolve_one_cases [of pkg extInfo] p
  show "case matching_descriptors packages hook ! i of
            (pkg, extInfo) \<Rightarrow>
              (case load pkg extInfo of
                 Inl err \<Rightarrow> map (\<lambda>(pkg, extInfo). resolve_one pkg extInfo) (matching_descriptors packages hook) ! i = errored_extension extInfo (pkg_id pkg) err
                            \<and> get_prop (map (\<lambda>(pkg, extInfo). resolve_one pkg extInfo) (matching_descriptors packages hook) ! i) ''error'' = err
               | Inr v \<Rightarrow> map (\<lambda>(pkg, extInfo). resolve_one pkg extInfo) (matching_descriptors packages hook) ! i = loaded_extension extInfo (pkg_id pkg) v
                          \<and> get_prop (map (\<lambda>(pkg, extInfo). resolve_one pkg extInfo) (matching_descriptors packages hook) ! i) ''value'' = v)"
    by (cases "load pkg extInfo") simp_all
qed

text \<open>C2 where the loader of the first package fails and that of the second succeeds.\<close>

theorem C2_load_failure_isolated_witness:
  "\<exists>exts. getImplementations [pkgB, pkgA] ''render'' = Inr exts
     \<and> length exts = 2
     \<and> exts ! 0 = errored_extension render_y ''pkgB'' (JStr ''boom'')
     \<and> get_prop (exts ! 0) ''error'' = JStr ''boom''
     \<and> exts ! 1 = loaded_extension render_x ''pkgA'' (JStr ''R1'')
     \<and> get_prop (exts ! 1) ''value'' = JStr ''R1''"
proof -
  have m: "matching_descriptors [pkgB, pkgA] ''render'' = [(pkgB, render_y), (pkgA, render_x)]"
    by (simp add: matching_descriptors_def implements_def example_defs)
  from C2_load_failure_isolated [of "[pkgB, pkgA]" "''render''"] obtain exts where
    r: "getImplementations [pkgB, pkgA] ''render'' = Inr exts" and
    l: "length exts = length (matching_descriptors [pkgB, pkgA] ''render'')" and
    e: "\<forall>i < length (matching_descriptors [pkgB, pkgA] ''render'').
          case matching_descriptors [pkgB, pkgA] ''render'' ! i of
            (pkg, extInfo) \<Rightarrow>
              (case load pkg extInfo of
                 Inl err \<Rightarrow> exts ! i = errored_extension extInfo (pkg_id pkg) err
                            \<and> get_prop (exts ! i) ''error'' = err
               | Inr v \<Rightarrow> exts ! i = loaded_extension extInfo (pkg_id pkg) v
                          \<and> get_prop (exts ! i) ''value'' = v)"
    by blast
  have lb: "load pkgB render_y = Inl (JStr ''boom'')" "pkg_id pkgB = ''pkgB''"
    by (simp_all add: pkgB_def rejects_with_def)
  have la: "load pkgA render_x = Inr (JStr ''R1'')" "pkg_id pkgA = ''pkgA''"
    by (simp_all add: pkgA_def resolves_with_def)
  have e0: "exts ! 0 = errored_extension render_y ''pkgB'' (JStr ''boom'')
                 \<and> get_prop (exts ! 0) ''error'' = JStr ''boom''"
    using e [rule_format, of 0] unfolding m by (auto simp: lb)
  have e1: "exts ! 1 = loaded_extension render_x ''pkgA'' (JStr ''R1'')
                 \<and> get_prop (exts ! 1) ''value'' = JStr ''R1''"
    using e [rule_format, of 1] unfolding m by (auto simp: la)
  from l have l2: "length exts = 2" unfolding m by simp
  from r l2 e0 e1 show ?thesis by blast
qed

text \<open>
  Claim C10, as the program has it. \<^verbatim>\<open>isLoaded\<close> holds of an object exactly when it has
  a property \<^verbatim>\<open>value\<close> that is not \<^verbatim>\<open>undefined\<close>, \<^verbatim>\<open>isErrored\<close> exactly when it has a
  property \<^verbatim>\<open>error\<close> that is not \<^verbatim>\<open>undefined\<close>. The entry of a descriptor whose loader
  was fulfilled with \<^verbatim>\<open>undefined\<close> is never loaded, and it is errored exactly when the
  descriptor itself is: when the descriptor has no defined \<^verbatim>\<open>error\<close>, neither predicate
  holds of it.
\<close>

theorem C10_predicates:
  "(isLoaded ext \<longleftrightarrow> (\<exists>v. map_of ext ''value'' = Some v \<and> v \<noteq> JUndefined))
   \<and> (isErrored ext \<longleftrightarrow> (\<exists>e. map_of ext ''error'' = Some e \<and> e \<noteq> JUndefined))
   \<and> (load pkg extInfo = Inr JUndefined \<longrightarrow>
         \<not> isLoaded (resolve_one pkg extInfo)
       \<and> (isErrored (resolve_one pkg extInfo) \<longleftrightarrow> isErrored extInfo))"
proof (intro conjI impI)
  show "isLoaded ext \<longleftrightarrow> (\<exists>v. map_of ext ''value'' = Some v \<and> v \<noteq> JUndefined)"
    by (cases "map_of ext ''value''") (simp_all add: isLoaded_def get_prop_map_of)
next
  show "isErrored ext \<longleftrightarrow> (\<exists>e. map_of ext ''error'' = Some e \<and> e \<noteq> JUndefined)"
    by (cases "map_of ext ''error''") (simp_all add: isErrored_def get_prop_map_of)
next
  assume "load pkg extInfo = Inr JUndefined"
  then show "\<not> isLoaded (resolve_one pkg extInfo)"
    by (simp add: isLoaded_def resolve_one_def loaded_extension_def get_set_same)
next
  assume "load pkg extInfo = Inr JUndefined"
  then show "isErrored (resolve_one pkg extInfo) \<longleftrightarrow> isErrored extInfo"
    by (simp add: isErrored_def resolve_one_def loaded_extension_def get_set_other)
qed

text \<open>C10 on a descriptor with no \<^verbatim>\<open>error\<close> whose loader is fulfilled with \<^verbatim>\<open>undefined\<close>.\<close>

theorem C10_predicates_witness:
  "load pkgE render_x = Inr JUndefined
   \<and> \<not> isLoaded (resolve_one pkgE render_x)
   \<and> \<not> isErrored (resolve_one pkgE render_x)"
proof -
  have l: "load pkgE render_x = Inr JUndefined"
    by (simp add: pkgE_def resolves_with_def)
  have e: "\<not> isErrored render_x"
    by (simp add: isErrored_def render_x_def)
  note t = C10_predicates [of render_x pkgE render_x, THEN conjunct2, THEN conjunct2, rule_format, OF l]
  from t l e show ?thesis by simp
qed

text \<open>
  Claim C10 as the specification states it says that neither predicate holds of an entry
  whose loader was fulfilled with \<^verbatim>\<open>undefined\<close>. The loaded entry keeps the descriptor's
  other properties, and a descriptor may have a property named \<^verbatim>\<open>error\<close>: then
  \<^verbatim>\<open>isErrored\<close> holds of the entry although its loader did not fail.
\<close>

theorem C10_undefined_value_errored_by_descriptor:
  "getImplementations [pkgD] ''render'' =
     Inr [[(''hook'', JStr ''render''), (''name'', JStr ''x''), (''error'', JStr ''stale''),
           (''packageId'', JStr ''pkgD''), (''value'', JUndefined)]]
   \<and> extensions pkgD = [render_own_error]
   \<and> load pkgD render_own_error = Inr JUndefined
   \<and> isErrored [(''hook'', JStr ''render''), (''name'', JStr ''x''), (''error'', JStr ''stale''),
           (''packageId'', JStr ''pkgD''), (''value'', JUndefined)]"
  by (simp add: getImplementations_def example_defs implements_def loaded_extension_def isErrored_def)

section \<open>One-shot loading\<close>

text \<open>
  Claim C7. \<^verbatim>\<open>load(hook)\<close> calls \<^verbatim>\<open>finder.find()\<close> once. Its promise is rejected with
  an error exactly when the promise of \<^verbatim>\<open>find\<close> is rejected with that error; when
  \<^verbatim>\<open>find\<close> is fulfilled with a package list, it is fulfilled with what
  \<^verbatim>\<open>getImplementations\<close> gives for that list, which is the empty list when no descriptor
  of the list implements the hook.
\<close>

theorem C7_load_once:
  "(fst (PluginHooker_load hook found s) = Inl err \<longleftrightarrow> found = Inl err)
   \<and> (\<forall>packages. found = Inr packages \<longrightarrow>
         fst (PluginHooker_load hook found s) = getImplementations packages hook
       \<and> (matching_descriptors packages hook = [] \<longrightarrow>
            fst (PluginHooker_load hook found s) = Inr []))
   \<and> find_calls (snd (PluginHooker_load hook found s)) = find_calls s + 1"
  by (cases found) (auto simp: PluginHooker_load_def getImplementations_map)

text \<open>C7 for a hook no package implements, and for a finder whose \<^verbatim>\<open>find\<close> fails.\<close>

theorem C7_load_once_witness:
  "fst (PluginHooker_load ''unknown-hook'' (Inr [pkgA, pkgB]) initial) = Inr []
   \<and> fst (PluginHooker_load ''render'' (Inl (JStr ''no registry'')) initial) = Inl (JStr ''no registry'')"
proof -
  have m: "matching_descriptors [pkgA, pkgB] ''unknown-hook'' = []"
    by (simp add: matching_descriptors_def implements_def example_defs)
  have f: "Inr [pkgA, pkgB] = (Inr [pkgA, pkgB] :: jsval + IPackage list)" by (rule refl)
  note t = C7_load_once [of "''unknown-hook''" "Inr [pkgA, pkgB]" initial JNull,
      THEN conjunct2, THEN conjunct1, rule_format, OF f, THEN conjunct2, rule_format, OF m]
  from t have a: "fst (PluginHooker_load ''unknown-hook'' (Inr [pkgA, pkgB]) initial) = Inr []" .
  from C7_load_once [of "''render''" "Inl (JStr ''no registry'')" initial "JStr ''no registry''"]
  have b: "fst (PluginHooker_load ''render'' (Inl (JStr ''no registry'')) initial) = Inl (JStr ''no registry'')"
    by simp
  from a b show ?thesis by simp
qed

text \<open>
  Claim C8. \<^verbatim>\<open>load(hook)\<close> changes nothing but the count of \<^verbatim>\<open>find\<close> calls:
  \<^verbatim>\<open>isWatching\<close>, the watch session, the subjects, the finder's watches, the
  observables handed out, what every subscriber has received and the promises pending
  for them are what they were.
\<close>

theorem C8_load_frame:
  "snd (PluginHooker_load hook found s) = s\<lparr>find_calls := find_calls s + 1\<rparr>
   \<and> isWatching (snd (PluginHooker_load hook found s)) = isWatching s
   \<and> activeWatch (snd (PluginHooker_load hook found s)) = activeWatch s
   \<and> subjects (snd (PluginHooker_load hook found s)) = subjects s
   \<and> finder_watches (snd (PluginHooker_load hook found s)) = finder_watches s
   \<and> observables (snd (PluginHooker_load hook found s)) = observables s
   \<and> subscribers (snd (PluginHooker_load hook found s)) = subscribers s
   \<and> promises (snd (PluginHooker_load hook found s)) = promises s"
  by (simp add: PluginHooker_load_def isWatching_def)

section \<open>Starting and stopping the watch\<close>

text \<open>
  Claim C6. \<^verbatim>\<open>isWatching\<close> is false of a new instance, true after \<^verbatim>\<open>watch(hook)\<close> and
  after a read of \<^verbatim>\<open>packagesStream\<close>, false after \<^verbatim>\<open>stopWatching()\<close>.
  \<^verbatim>\<open>stopWatching()\<close> on an instance that is not watching changes nothing; on one that
  is, it calls the stored cancellation function. A demand on an instance that is not
  watching makes one more \<^verbatim>\<open>finder.watch\<close> call, whose listener feeds a new subject
  that holds the empty list and has no subscriber, and stores the two as the session.
\<close>

theorem C6_isWatching_toggles:
  "\<not> isWatching initial
   \<and> isWatching (snd (watch hook s))
   \<and> isWatching (snd (packagesStream s))
   \<and> \<not> isWatching (stopWatching s)
   \<and> (\<not> isWatching s \<longrightarrow> stopWatching s = s)
   \<and> (\<forall>w. activeWatch s = Some w \<longrightarrow>
         finder_watches (stopWatching s) = cancel (close w) (finder_watches s)
       \<and> (close w < length (finder_watches s) \<longrightarrow>
            cancelled (finder_watches (stopWatching s) ! close w)))
   \<and> (\<not> isWatching s \<longrightarrow>
         (\<forall>s'. s' = snd (watch hook s) \<or> s' = snd (packagesStream s) \<longrightarrow>
            finder_watches s' =
              finder_watches s @ [\<lparr>listener_subject = length (subjects s), cancelled = False\<rparr>]
          \<and> subjects s' = subjects s @ [\<lparr>bs_value = [], observers = []\<rparr>]
          \<and> activeWatch s' =
              Some \<lparr>close = length (finder_watches s), subject = length (subjects s)\<rparr>))"
  by (auto simp: initial_def isWatching_def watch_def packagesStream_def packageSubject_def
        stopWatching_def cancel_def Let_def split: option.splits)

text \<open>C6 on an instance that watched, was stopped, and is asked to watch again.\<close>

theorem C6_isWatching_toggles_witness:
  "\<not> isWatching initial
   \<and> isWatching (snd (watch ''render'' initial))
   \<and> \<not> isWatching (stopWatching (snd (watch ''render'' initial)))
   \<and> stopWatching initial = initial
   \<and> finder_watches (snd (watch ''lint'' (stopWatching (snd (watch ''render'' initial))))) =
       [\<lparr>listener_subject = 0, cancelled = True\<rparr>, \<lparr>listener_subject = 1, cancelled = False\<rparr>]
   \<and> subjects (snd (watch ''lint'' (stopWatching (snd (watch ''render'' initial))))) ! 1 =
       \<lparr>bs_value = [], observers = []\<rparr>
   \<and> activeWatch (snd (watch ''lint'' (stopWatching (snd (watch ''render'' initial))))) =
       Some \<lparr>close = 1, subject = 1\<rparr>"
proof -
  have a: "stopWatching (snd (watch ''render'' initial)) =
      \<lparr>activeWatch = None, subjects = [\<lparr>bs_value = [], observers = []\<rparr>],
       finder_watches = [\<lparr>listener_subject = 0, cancelled = True\<rparr>], find_calls = 0,
       observables = [], subscribers = [], promises = []\<rparr>"
    by (simp add: initial_def watch_def packageSubject_def stopWatching_def cancel_def)
  have i: "\<not> isWatching (stopWatching (snd (watch ''render'' initial)))"
    by (simp add: a isWatching_def)
  have n: "\<not> isWatching initial"
    by (simp add: initial_def isWatching_def)
  note t = C6_isWatching_toggles [of "''lint''" "stopWatching (snd (watch ''render'' initial))"]
  note u = C6_isWatching_toggles [of "''render''" initial]
  from t i have b:
    "finder_watches (snd (watch ''lint'' (stopWatching (snd (watch ''render'' initial))))) =
       finder_watches (stopWatching (snd (watch ''render'' initial))) @
         [\<lparr>listener_subject = length (subjects (stopWatching (snd (watch ''render'' initial)))),
           cancelled = False\<rparr>]
     \<and> subjects (snd (watch ''lint'' (stopWatching (snd (watch ''render'' initial))))) =
       subjects (stopWatching (snd (watch ''render'' initial))) @ [\<lparr>bs_value = [], observers = []\<rparr>]
     \<and> activeWatch (snd (watch ''lint'' (stopWatching (snd (watch ''render'' initial))))) =
       Some \<lparr>close = length (finder_watches (stopWatching (snd (watch ''render'' initial)))),
             subject = length (subjects (stopWatching (snd (watch ''render'' initial))))\<rparr>"
    by simp
  from u n have c: "stopWatching initial = initial" by simp
  from u have d: "isWatching (snd (watch ''render'' initial))" by simp
  from n d i c b show ?thesis by (simp add: a)
qed

section \<open>What each operation leaves unchanged\<close>

lemma deliver_frame [simp]:
  "activeWatch (deliver P sid s) = activeWatch s"
  "subjects (deliver P sid s) = subjects s"
  "finder_watches (deliver P sid s) = finder_watches s"
  "find_calls (deliver P sid s) = find_calls s"
  "observables (deliver P sid s) = observables s"
  "length (subscribers (deliver P sid s)) = length (subscribers s)"
  by (simp_all add: deliver_def split: operator.splits)

lemma deliver_subscriber_frame [simp]:
  "source (subscribers (deliver P sid s) ! i) = source (subscribers s ! i)"
  "oper (subscribers (deliver P sid s) ! i) = oper (subscribers s ! i)"
  "failed (subscribers (deliver P sid s) ! i) = failed (subscribers s ! i)"
  by (simp_all add: deliver_def nth_list_update split: operator.splits)


lemma deliver_merge:
  "sid < length (subscribers s) \<Longrightarrow> failed (subscribers s ! sid) = None \<Longrightarrow>
   oper (subscribers s ! sid) = MergeMapImplementations hook \<Longrightarrow>
   deliver P sid s = s\<lparr>promises := promises s @
       [\<lparr>target = sid, outcome = getImplementations P hook, settled = False\<rparr>]\<rparr>"
  by (simp add: deliver_def)

lemma deliver_map:
  "sid < length (subscribers s) \<Longrightarrow> failed (subscribers s ! sid) = None \<Longrightarrow>
   oper (subscribers s ! sid) = MapMetadata \<Longrightarrow>
   deliver P sid s = s\<lparr>subscribers := (subscribers s)[sid := (subscribers s ! sid)
       \<lparr>received := received (subscribers s ! sid) @ [Metadata (map metadata P)]\<rparr>]\<rparr>"
  by (simp add: deliver_def)

lemma fold_deliver_frame [simp]:
  "activeWatch (fold (deliver P) obs s) = activeWatch s"
  "subjects (fold (deliver P) obs s) = subjects s"
  "finder_watches (fold (deliver P) obs s) = finder_watches s"
  "find_calls (fold (deliver P) obs s) = find_calls s"
  "observables (fold (deliver P) obs s) = observables s"
  "length (subscribers (fold (deliver P) obs s)) = length (subscribers s)"
  by (induction obs arbitrary: s; simp)+

lemma fold_deliver_subscriber_frame [simp]:
  "source (subscribers (fold (deliver P) obs s) ! i) = source (subscribers s ! i)"
  "oper (subscribers (fold (deliver P) obs s) ! i) = oper (subscribers s ! i)"
  "failed (subscribers (fold (deliver P) obs s) ! i) = failed (subscribers s ! i)"
  by (induction obs arbitrary: s; simp)+

lemma subject_next_frame [simp]:
  "activeWatch (subject_next subj P s) = activeWatch s"
  "finder_watches (subject_next subj P s) = finder_watches s"
  "find_calls (subject_next subj P s) = find_calls s"
  "observables (subject_next subj P s) = observables s"
  "length (subjects (subject_next subj P s)) = length (subjects s)"
  "length (subscribers (subject_next subj P s)) = length (subscribers s)"
  by (simp_all add: subject_next_def)

lemma finder_emits_frame [simp]:
  "activeWatch (finder_emits c P s) = activeWatch s"
  "finder_watches (finder_emits c P s) = finder_watches s"
  "find_calls (finder_emits c P s) = find_calls s"
  "observables (finder_emits c P s) = observables s"
  "length (subjects (finder_emits c P s)) = length (subjects s)"
  "length (subscribers (finder_emits c P s)) = length (subscribers s)"
  by (simp_all add: finder_emits_def)

lemma settle_frame [simp]:
  "activeWatch (settle p s) = activeWatch s"
  "subjects (settle p s) = subjects s"
  "finder_watches (settle p s) = finder_watches s"
  "find_calls (settle p s) = find_calls s"
  "observables (settle p s) = observables s"
  "length (subscribers (settle p s)) = length (subscribers s)"
  "length (promises (settle p s)) = length (promises s)"
  by (simp_all add: settle_def Let_def split: sum.splits)

lemma subscribe_frame [simp]:
  "activeWatch (snd (subscribe ob s)) = activeWatch s"
  "finder_watches (snd (subscribe ob s)) = finder_watches s"
  "find_calls (snd (subscribe ob s)) = find_calls s"
  "observables (snd (subscribe ob s)) = observables s"
  "length (subjects (snd (subscribe ob s))) = length (subjects s)"
  by (simp_all add: subscribe_def Let_def split: observable.splits)

lemma load_frame [simp]:
  "activeWatch (snd (PluginHooker_load hook found s)) = activeWatch s"
  "finder_watches (snd (PluginHooker_load hook found s)) = finder_watches s"
  "subjects (snd (PluginHooker_load hook found s)) = subjects s"
  "observables (snd (PluginHooker_load hook found s)) = observables s"
  "subscribers (snd (PluginHooker_load hook found s)) = subscribers s"
  "promises (snd (PluginHooker_load hook found s)) = promises s"
  by (simp_all add: PluginHooker_load_def)


section \<open>Reachable states are well formed\<close>

lemma wf_initial: "well_formed initial"
  by (simp add: well_formed_def initial_def wf_session_def wf_live_def wf_listeners_def wf_observables_def
        wf_observers_def wf_subscribers_def wf_promises_def)

lemma wf_session_cong:
  "activeWatch s' = activeWatch s \<Longrightarrow> finder_watches s' = finder_watches s \<Longrightarrow>
   wf_session s' = wf_session s"
  by (simp add: wf_session_def split: option.splits)

lemma wf_live_cong:
  "activeWatch s' = activeWatch s \<Longrightarrow> finder_watches s' = finder_watches s \<Longrightarrow>
   wf_live s' = wf_live s"
  by (simp add: wf_live_def)

lemma wf_listeners_cong:
  "finder_watches s' = finder_watches s \<Longrightarrow> length (subjects s') = length (subjects s) \<Longrightarrow>
   wf_listeners s' = wf_listeners s"
  by (simp add: wf_listeners_def)

lemma wf_observables_cong:
  "observables s' = observables s \<Longrightarrow> length (subjects s') = length (subjects s) \<Longrightarrow>
   wf_observables s' = wf_observables s"
  by (simp add: wf_observables_def split: observable.splits)

lemma wf_observers_cong:
  "length (subjects s') = length (subjects s) \<Longrightarrow>
   (\<And>i. i < length (subjects s) \<Longrightarrow> observers (subjects s' ! i) = observers (subjects s ! i)) \<Longrightarrow>
   length (subscribers s') = length (subscribers s) \<Longrightarrow>
   wf_observers s' = wf_observers s"
  by (simp add: wf_observers_def)

lemma wf_subscribers_cong:
  "length (subscribers s') = length (subscribers s) \<Longrightarrow>
   (\<And>i. i < length (subscribers s) \<Longrightarrow> failed (subscribers s' ! i) = failed (subscribers s ! i)) \<Longrightarrow>
   wf_subscribers s' = wf_subscribers s"
  by (simp add: wf_subscribers_def)

lemma wf_promises_deliver: "wf_promises s \<Longrightarrow> wf_promises (deliver P sid s)"
  by (auto simp: wf_promises_def deliver_def getImplementations_def split: operator.splits)

lemma wf_deliver:
  assumes "well_formed s"
  shows "well_formed (deliver P sid s)"
proof -
  have "wf_session (deliver P sid s) = wf_session s" by (rule wf_session_cong) simp_all
  moreover have "wf_live (deliver P sid s) = wf_live s" by (rule wf_live_cong) simp_all
  moreover have "wf_listeners (deliver P sid s) = wf_listeners s" by (rule wf_listeners_cong) simp_all
  moreover have "wf_observables (deliver P sid s) = wf_observables s"
    by (rule wf_observables_cong) simp_all
  moreover have "wf_observers (deliver P sid s) = wf_observers s"
    by (rule wf_observers_cong) simp_all
  moreover have "wf_subscribers (deliver P sid s) = wf_subscribers s"
    by (rule wf_subscribers_cong) simp_all
  moreover have "wf_promises (deliver P sid s)"
    using assms by (simp add: well_formed_def wf_promises_deliver)
  ultimately show ?thesis using assms by (simp add: well_formed_def)
qed

lemma wf_fold_deliver: "well_formed s \<Longrightarrow> well_formed (fold (deliver P) obs s)"
  by (induction obs arbitrary: s) (simp_all add: wf_deliver)

lemma observers_bs_value_update:
  "observers ((bs[subj := (bs ! subj)\<lparr>bs_value := P\<rparr>]) ! i) = observers (bs ! i)"
  by (cases "i = subj"; cases "subj < length bs"; simp add: list_update_beyond)

lemma wf_bs_value_update:
  assumes "well_formed s"
  shows "well_formed (s\<lparr>subjects := (subjects s)[subj := (subjects s ! subj)\<lparr>bs_value := P\<rparr>]\<rparr>)"
    (is "well_formed ?t")
proof -
  have "wf_session ?t = wf_session s" by (rule wf_session_cong) simp_all
  moreover have "wf_live ?t = wf_live s" by (rule wf_live_cong) simp_all
  moreover have "wf_listeners ?t = wf_listeners s" by (rule wf_listeners_cong) simp_all
  moreover have "wf_observables ?t = wf_observables s" by (rule wf_observables_cong) simp_all
  moreover have "wf_observers ?t = wf_observers s"
    by (rule wf_observers_cong) (simp_all add: observers_bs_value_update)
  moreover have "wf_subscribers ?t = wf_subscribers s" by (rule wf_subscribers_cong) simp_all
  moreover have "wf_promises ?t = wf_promises s" by (simp add: wf_promises_def)
  ultimately show ?thesis using assms by (simp add: well_formed_def)
qed

lemma wf_subject_next: "well_formed s \<Longrightarrow> well_formed (subject_next subj P s)"
  by (simp add: subject_next_def wf_fold_deliver wf_bs_value_update)

lemma wf_finder_emits: "well_formed s \<Longrightarrow> well_formed (finder_emits c P s)"
  by (simp add: finder_emits_def wf_subject_next)

lemma wf_load:
  assumes "well_formed s"
  shows "well_formed (snd (PluginHooker_load hook found s))" (is "well_formed ?t")
proof -
  have "wf_session ?t = wf_session s" by (rule wf_session_cong) simp_all
  moreover have "wf_live ?t = wf_live s" by (rule wf_live_cong) simp_all
  moreover have "wf_listeners ?t = wf_listeners s" by (rule wf_listeners_cong) simp_all
  moreover have "wf_observables ?t = wf_observables s" by (rule wf_observables_cong) simp_all
  moreover have "wf_observers ?t = wf_observers s" by (rule wf_observers_cong) simp_all
  moreover have "wf_subscribers ?t = wf_subscribers s" by (rule wf_subscribers_cong) simp_all
  moreover have "wf_promises ?t = wf_promises s" by (simp add: wf_promises_def)
  ultimately show ?thesis using assms by (simp add: well_formed_def)
qed

lemma settle_noop:
  "\<not> (p < length (promises s) \<and> \<not> settled (promises s ! p)) \<Longrightarrow> settle p s = s"
  by (simp only: settle_def if_False)

lemma settle_Inr:
  "p < length (promises s) \<Longrightarrow> \<not> settled (promises s ! p) \<Longrightarrow>
   target (promises s ! p) < length (subscribers s) \<Longrightarrow>
   failed (subscribers s ! target (promises s ! p)) = None \<Longrightarrow>
   outcome (promises s ! p) = Inr exts \<Longrightarrow>
   settle p s =
     s\<lparr>promises := (promises s)[p := (promises s ! p)\<lparr>settled := True\<rparr>],
       subscribers := (subscribers s)[target (promises s ! p) :=
         (subscribers s ! target (promises s ! p))
           \<lparr>received := received (subscribers s ! target (promises s ! p)) @ [Extensions exts]\<rparr>]\<rparr>"
  by (simp add: settle_def Let_def)

lemma wf_settle:
  assumes "well_formed s"
  shows "well_formed (settle p s)" (is "well_formed ?t")
proof -
  have "wf_session ?t = wf_session s" by (rule wf_session_cong) simp_all
  moreover have "wf_live ?t = wf_live s" by (rule wf_live_cong) simp_all
  moreover have "wf_listeners ?t = wf_listeners s" by (rule wf_listeners_cong) simp_all
  moreover have "wf_observables ?t = wf_observables s" by (rule wf_observables_cong) simp_all
  moreover have "wf_observers ?t = wf_observers s" by (rule wf_observers_cong) simp_all
  moreover have "wf_subscribers ?t \<and> wf_promises ?t"
  proof (cases "p < length (promises s) \<and> \<not> settled (promises s ! p)")
    case False
    then have "settle p s = s" by (rule settle_noop)
    with assms show ?thesis by (simp add: well_formed_def)
  next
    case True
    then have m: "promises s ! p \<in> set (promises s)" by simp
    with assms obtain exts where o: "outcome (promises s ! p) = Inr exts"
      and t: "target (promises s ! p) < length (subscribers s)"
      by (auto simp: well_formed_def wf_promises_def)
    from assms t have f: "failed (subscribers s ! target (promises s ! p)) = None"
      by (simp add: well_formed_def wf_subscribers_def)
    from True t f o have e: "settle p s =
       s\<lparr>promises := (promises s)[p := (promises s ! p)\<lparr>settled := True\<rparr>],
         subscribers := (subscribers s)[target (promises s ! p) :=
           (subscribers s ! target (promises s ! p))
             \<lparr>received := received (subscribers s ! target (promises s ! p)) @ [Extensions exts]\<rparr>]\<rparr>"
      by (simp add: settle_Inr)
    have "wf_subscribers ?t"
      using assms t unfolding e by (auto simp: well_formed_def wf_subscribers_def nth_list_update)
    moreover have "wf_promises ?t"
    proof -
      have "\<And>q. q \<in> set ((promises s)[p := (promises s ! p)\<lparr>settled := True\<rparr>]) \<Longrightarrow>
              target q < length (subscribers s) \<and> (\<exists>exts. outcome q = Inr exts)"
      proof -
        fix q assume "q \<in> set ((promises s)[p := (promises s ! p)\<lparr>settled := True\<rparr>])"
        then have "q = (promises s ! p)\<lparr>settled := True\<rparr> \<or> q \<in> set (promises s)"
          using set_update_subset_insert by fastforce
        with assms m show "target q < length (subscribers s) \<and> (\<exists>exts. outcome q = Inr exts)"
          by (auto simp: well_formed_def wf_promises_def)
      qed
      then show ?thesis unfolding e by (simp add: wf_promises_def)
    qed
    ultimately show ?thesis by simp
  qed
  ultimately show ?thesis using assms by (simp add: well_formed_def)
qed


lemma wf_subscribe:
  assumes "well_formed s"
  shows "well_formed (snd (subscribe ob s))"
proof (cases ob)
  case (Observable subj op)
  show ?thesis
  proof (cases "subj < length (subjects s)")
    case False
    with Observable assms show ?thesis by (simp add: subscribe_def)
  next
    case True
    let ?t = "s\<lparr>subscribers := subscribers s @
                    [\<lparr>source = subj, oper = op, received = [], failed = None\<rparr>],
                 subjects := (subjects s)[subj := (subjects s ! subj)
                    \<lparr>observers := observers (subjects s ! subj) @ [length (subscribers s)]\<rparr>]\<rparr>"
    have "wf_session ?t = wf_session s" by (rule wf_session_cong) simp_all
    moreover have "wf_live ?t = wf_live s" by (rule wf_live_cong) simp_all
    moreover have "wf_listeners ?t = wf_listeners s" by (rule wf_listeners_cong) simp_all
    moreover have "wf_observables ?t = wf_observables s" by (rule wf_observables_cong) simp_all
    moreover have "wf_observers ?t"
      using assms True
      by (auto simp: well_formed_def wf_observers_def nth_list_update less_Suc_eq)
    moreover have "wf_subscribers ?t"
      using assms by (auto simp: well_formed_def wf_subscribers_def nth_append)
    moreover have "wf_promises ?t"
      using assms by (auto simp: well_formed_def wf_promises_def)
    ultimately have "well_formed ?t" using assms by (simp add: well_formed_def)
    then have "well_formed (deliver (bs_value (subjects s ! subj)) (length (subscribers s)) ?t)"
      by (rule wf_deliver)
    with Observable True show ?thesis by (simp add: subscribe_def Let_def)
  qed
qed

lemma wf_packageSubject:
  assumes "well_formed s"
  shows "well_formed (snd (packageSubject s))"
proof (cases "activeWatch s")
  case (Some w)
  with assms show ?thesis by (simp add: packageSubject_def)
next
  case None
  let ?t = "s\<lparr>subjects := subjects s @ [\<lparr>bs_value = [], observers = []\<rparr>],
              finder_watches := finder_watches s @
                [\<lparr>listener_subject = length (subjects s), cancelled = False\<rparr>],
              activeWatch := Some \<lparr>close = length (finder_watches s), subject = length (subjects s)\<rparr>\<rparr>"
  have "wf_session ?t" by (simp add: wf_session_def)
  moreover have "wf_live ?t"
    using assms None by (auto simp: well_formed_def wf_live_def nth_append)
  moreover have "wf_listeners ?t"
    using assms by (auto simp: well_formed_def wf_listeners_def nth_append less_Suc_eq)
  moreover have "wf_observables ?t"
    using assms by (auto simp: well_formed_def wf_observables_def split: observable.splits)
  moreover have "wf_observers ?t"
    using assms by (auto simp: well_formed_def wf_observers_def nth_append less_Suc_eq)
  moreover have "wf_subscribers ?t = wf_subscribers s" by (rule wf_subscribers_cong) simp_all
  moreover have "wf_promises ?t = wf_promises s" by (simp add: wf_promises_def)
  ultimately have "well_formed ?t" using assms by (simp add: well_formed_def)
  with None show ?thesis by (simp add: packageSubject_def Let_def)
qed

lemma wf_observables_append:
  "well_formed s \<Longrightarrow> (case ob of Observable subj op \<Rightarrow> subj < length (subjects s)) \<Longrightarrow>
   well_formed (s\<lparr>observables := observables s @ [ob]\<rparr>)"
  by (auto simp: well_formed_def wf_session_def wf_live_def wf_listeners_def wf_observables_def
        wf_observers_def wf_subscribers_def wf_promises_def split: observable.splits option.splits)

lemma packageSubject_valid:
  "well_formed s \<Longrightarrow> fst (packageSubject s) < length (subjects (snd (packageSubject s)))"
  by (cases "activeWatch s")
     (auto simp: packageSubject_def Let_def well_formed_def wf_session_def wf_listeners_def)

lemma wf_stopWatching:
  assumes "well_formed s"
  shows "well_formed (stopWatching s)"
proof (cases "activeWatch s")
  case None
  with assms show ?thesis by (simp add: stopWatching_def)
next
  case (Some w)
  let ?t = "s\<lparr>finder_watches := cancel (close w) (finder_watches s), activeWatch := None\<rparr>"
  have l: "length (cancel (close w) (finder_watches s)) = length (finder_watches s)"
    by (simp add: cancel_def)
  have n: "\<And>c. listener_subject (cancel (close w) (finder_watches s) ! c) =
               listener_subject (finder_watches s ! c)"
    by (simp add: cancel_def nth_list_update)
  have "wf_session ?t" by (simp add: wf_session_def)
  moreover have "wf_live ?t"
    using assms Some by (auto simp: well_formed_def wf_live_def cancel_def nth_list_update)
  moreover have "wf_listeners ?t"
    using assms by (simp add: well_formed_def wf_listeners_def l n)
  moreover have "wf_observables ?t = wf_observables s" by (rule wf_observables_cong) simp_all
  moreover have "wf_observers ?t = wf_observers s" by (rule wf_observers_cong) simp_all
  moreover have "wf_subscribers ?t = wf_subscribers s" by (rule wf_subscribers_cong) simp_all
  moreover have "wf_promises ?t = wf_promises s" by (simp add: wf_promises_def)
  ultimately have "well_formed ?t" using assms by (simp add: well_formed_def)
  with Some show ?thesis by (simp add: stopWatching_def)
qed

lemma wf_exec: "well_formed s \<Longrightarrow> well_formed (exec a s)"
proof (cases a)
  case (Watch hook)
  assume w: "well_formed s"
  from w have "well_formed (snd (packageSubject s))" by (rule wf_packageSubject)
  moreover from w have "fst (packageSubject s) < length (subjects (snd (packageSubject s)))"
    by (rule packageSubject_valid)
  ultimately have "well_formed ((snd (packageSubject s))\<lparr>observables := observables (snd (packageSubject s)) @
      [Observable (fst (packageSubject s)) (MergeMapImplementations hook)]\<rparr>)"
    by (intro wf_observables_append) simp_all
  with Watch show ?thesis by (simp add: watch_def case_prod_beta)
next
  case PackagesStream
  assume w: "well_formed s"
  from w have "well_formed (snd (packageSubject s))" by (rule wf_packageSubject)
  moreover from w have "fst (packageSubject s) < length (subjects (snd (packageSubject s)))"
    by (rule packageSubject_valid)
  ultimately have "well_formed ((snd (packageSubject s))\<lparr>observables := observables (snd (packageSubject s)) @
      [Observable (fst (packageSubject s)) MapMetadata]\<rparr>)"
    by (intro wf_observables_append) simp_all
  with PackagesStream show ?thesis by (simp add: packagesStream_def case_prod_beta)
qed (simp_all add: wf_stopWatching wf_load wf_subscribe wf_finder_emits wf_settle)

lemma wf_run: "well_formed s \<Longrightarrow> well_formed (run as s)"
  unfolding run_def by (induction as arbitrary: s) (simp_all add: wf_exec)

lemma wf_reachable: "well_formed (run as initial)"
  by (rule wf_run) (rule wf_initial)


section \<open>One shared session\<close>

lemma packageSubject_effect:
  "fst (packageSubject s) = shared_subject s
   \<and> shared_subject (snd (packageSubject s)) = shared_subject s
   \<and> isWatching (snd (packageSubject s))
   \<and> length (finder_watches (snd (packageSubject s))) =
       length (finder_watches s) + (if isWatching s then 0 else 1)
   \<and> observables (snd (packageSubject s)) = observables s"
  by (cases "activeWatch s")
     (simp_all add: packageSubject_def shared_subject_def isWatching_def Let_def)

lemma observables_update_shared [simp]:
  "shared_subject (s\<lparr>observables := x\<rparr>) = shared_subject s"
  "isWatching (s\<lparr>observables := x\<rparr>) = isWatching s"
  by (simp_all add: shared_subject_def isWatching_def split: option.splits)

lemma demand_shared:
  assumes "t = (snd (packageSubject s))\<lparr>observables := observables (snd (packageSubject s)) @
                 [Observable (fst (packageSubject s)) op]\<rparr>"
  shows "shared_subject t = shared_subject s
   \<and> isWatching t = (isWatching s \<or> True)
   \<and> length (finder_watches t) =
       length (finder_watches s) + (if \<not> isWatching s \<and> True then 1 else 0)
   \<and> (\<exists>obs'. observables t = observables s @ obs'
         \<and> (\<forall>ob \<in> set obs'. \<exists>op. ob = Observable (shared_subject s) op))"
proof -
  note e = packageSubject_effect [of s]
  from e have 1: "shared_subject t = shared_subject s" by (simp add: assms)
  from e have 2: "isWatching t" by (simp add: assms)
  from e have 3: "length (finder_watches t) = length (finder_watches s) + (if isWatching s then 0 else 1)"
    by (simp add: assms)
  from e have 4: "observables t = observables s @ [Observable (shared_subject s) op]"
    by (simp add: assms)
  from 4 have 5: "\<exists>obs'. observables t = observables s @ obs'
         \<and> (\<forall>ob \<in> set obs'. \<exists>op. ob = Observable (shared_subject s) op)"
    by (intro exI [of _ "[Observable (shared_subject s) op]"]) simp
  from 1 2 3 5 show ?thesis by simp
qed

lemma other_shared:
  assumes "activeWatch t = activeWatch s" "length (subjects t) = length (subjects s)"
    "finder_watches t = finder_watches s" "observables t = observables s"
  shows "shared_subject t = shared_subject s
   \<and> isWatching t = (isWatching s \<or> False)
   \<and> length (finder_watches t) =
       length (finder_watches s) + (if \<not> isWatching s \<and> False then 1 else 0)
   \<and> (\<exists>obs'. observables t = observables s @ obs'
         \<and> (\<forall>ob \<in> set obs'. \<exists>op. ob = Observable (shared_subject s) op))"
  using assms by (simp add: shared_subject_def isWatching_def split: option.splits)

lemma exec_shared:
  assumes "a \<noteq> StopWatching"
  shows "shared_subject (exec a s) = shared_subject s
   \<and> isWatching (exec a s) = (isWatching s \<or> demands a)
   \<and> length (finder_watches (exec a s)) =
       length (finder_watches s) + (if \<not> isWatching s \<and> demands a then 1 else 0)
   \<and> (\<exists>obs'. observables (exec a s) = observables s @ obs'
         \<and> (\<forall>ob \<in> set obs'. \<exists>op. ob = Observable (shared_subject s) op))"
proof (cases a)
  case (Watch hook)
  have "exec a s = (snd (packageSubject s))\<lparr>observables := observables (snd (packageSubject s)) @
                 [Observable (fst (packageSubject s)) (MergeMapImplementations hook)]\<rparr>"
    by (simp add: Watch watch_def case_prod_beta)
  from demand_shared [OF this] show ?thesis by (simp add: Watch)
next
  case PackagesStream
  have "exec a s = (snd (packageSubject s))\<lparr>observables := observables (snd (packageSubject s)) @
                 [Observable (fst (packageSubject s)) MapMetadata]\<rparr>"
    by (simp add: PackagesStream packagesStream_def case_prod_beta)
  from demand_shared [OF this] show ?thesis by (simp add: PackagesStream)
next
  case StopWatching
  with assms show ?thesis by simp
next
  case (Load hook found)
  have "demands a = False" by (simp add: Load)
  moreover have "activeWatch (exec a s) = activeWatch s" "length (subjects (exec a s)) = length (subjects s)"
    "finder_watches (exec a s) = finder_watches s" "observables (exec a s) = observables s"
    by (simp_all add: Load)
  ultimately show ?thesis using other_shared [of "exec a s" s] by simp
next
  case (Subscribe n)
  have "demands a = False" by (simp add: Subscribe)
  moreover have "activeWatch (exec a s) = activeWatch s" "length (subjects (exec a s)) = length (subjects s)"
    "finder_watches (exec a s) = finder_watches s" "observables (exec a s) = observables s"
    by (simp_all add: Subscribe)
  ultimately show ?thesis using other_shared [of "exec a s" s] by simp
next
  case (FinderEmits c P)
  have "demands a = False" by (simp add: FinderEmits)
  moreover have "activeWatch (exec a s) = activeWatch s" "length (subjects (exec a s)) = length (subjects s)"
    "finder_watches (exec a s) = finder_watches s" "observables (exec a s) = observables s"
    by (simp_all add: FinderEmits)
  ultimately show ?thesis using other_shared [of "exec a s" s] by simp
next
  case (Settle p)
  have "demands a = False" by (simp add: Settle)
  moreover have "activeWatch (exec a s) = activeWatch s" "length (subjects (exec a s)) = length (subjects s)"
    "finder_watches (exec a s) = finder_watches s" "observables (exec a s) = observables s"
    by (simp_all add: Settle)
  ultimately show ?thesis using other_shared [of "exec a s" s] by simp
qed

lemma run_Cons: "run (a # as) s = run as (exec a s)"
  by (simp add: run_def)

lemma run_Nil: "run [] s = s"
  by (simp add: run_def)

lemma run_append: "run (as @ bs) s = run bs (run as s)"
  by (simp add: run_def)

lemma run_shared:
  "StopWatching \<notin> set as \<Longrightarrow>
   shared_subject (run as s) = shared_subject s
   \<and> isWatching (run as s) = (isWatching s \<or> (\<exists>a \<in> set as. demands a))
   \<and> length (finder_watches (run as s)) =
       length (finder_watches s) + (if \<not> isWatching s \<and> (\<exists>a \<in> set as. demands a) then 1 else 0)
   \<and> (\<exists>obs'. observables (run as s) = observables s @ obs'
         \<and> (\<forall>ob \<in> set obs'. \<exists>op. ob = Observable (shared_subject s) op))"
proof (induction as arbitrary: s)
  case Nil
  show ?case by (simp add: run_Nil)
next
  case (Cons a as)
  from Cons.prems have a: "a \<noteq> StopWatching" and as: "StopWatching \<notin> set as" by auto
  note e = exec_shared [OF a, of s]
  note i = Cons.IH [OF as, of "exec a s"]
  from e obtain obs1 where o1: "observables (exec a s) = observables s @ obs1"
    and s1: "\<forall>ob \<in> set obs1. \<exists>op. ob = Observable (shared_subject s) op" by blast
  from i obtain obs2 where o2: "observables (run as (exec a s)) = observables (exec a s) @ obs2"
    and s2: "\<forall>ob \<in> set obs2. \<exists>op. ob = Observable (shared_subject (exec a s)) op" by blast
  from e have sh: "shared_subject (exec a s) = shared_subject s" by simp
  have "observables (run (a # as) s) = observables s @ (obs1 @ obs2)"
    by (simp add: run_Cons o1 o2)
  moreover from s1 s2 sh have "\<forall>ob \<in> set (obs1 @ obs2). \<exists>op. ob = Observable (shared_subject s) op"
    by auto
  ultimately have "\<exists>obs'. observables (run (a # as) s) = observables s @ obs'
         \<and> (\<forall>ob \<in> set obs'. \<exists>op. ob = Observable (shared_subject s) op)" by blast
  moreover from e i have "shared_subject (run (a # as) s) = shared_subject s"
    by (simp add: run_Cons)
  moreover from e i have "isWatching (run (a # as) s) = (isWatching s \<or> (\<exists>a \<in> set (a # as). demands a))"
    by (auto simp: run_Cons)
  moreover from e i have "length (finder_watches (run (a # as) s)) =
       length (finder_watches s) + (if \<not> isWatching s \<and> (\<exists>a \<in> set (a # as). demands a) then 1 else 0)"
    by (auto simp: run_Cons)
  ultimately show ?case by blast
qed

lemma live_unique:
  assumes "well_formed s" "live_watch c s" "live_watch c' s"
  shows "c = c'"
proof -
  from assms(1) have l: "wf_live s" by (simp add: well_formed_def)
  from l assms(2) obtain w where w: "activeWatch s = Some w" "close w = c"
    unfolding wf_live_def live_watch_def by blast
  from l assms(3) obtain w' where w': "activeWatch s = Some w'" "close w' = c'"
    unfolding wf_live_def live_watch_def by blast
  from w w' show ?thesis by simp
qed

lemma live_iff_watching:
  assumes "well_formed s"
  shows "isWatching s \<longleftrightarrow> (\<exists>c. live_watch c s)"
proof
  assume "isWatching s"
  then obtain w where w: "activeWatch s = Some w" by (auto simp: isWatching_def)
  from assms have "wf_session s" by (simp add: well_formed_def)
  with w have "live_watch (close w) s" by (simp add: wf_session_def live_watch_def)
  then show "\<exists>c. live_watch c s" ..
next
  assume "\<exists>c. live_watch c s"
  then obtain c where c: "live_watch c s" ..
  from assms have "wf_live s" by (simp add: well_formed_def)
  with c obtain w where "activeWatch s = Some w"
    unfolding wf_live_def live_watch_def by blast
  then show "isWatching s" by (simp add: isWatching_def)
qed

text \<open>
  Claim C3. In a history without \<^verbatim>\<open>stopWatching()\<close>, from any state of an instance, the
  calls of \<^verbatim>\<open>watch(hook)\<close> and the reads of \<^verbatim>\<open>packagesStream\<close> make one
  \<^verbatim>\<open>finder.watch\<close> call when the instance was not watching and there is at least one of
  them, and none otherwise; and every observable they return is built on the same
  subject. In every state an instance can reach at most one \<^verbatim>\<open>finder.watch\<close> call is
  live, and one is exactly when \<^verbatim>\<open>isWatching\<close> is true.
\<close>

theorem C3_one_shared_session:
  "(StopWatching \<notin> set as \<longrightarrow>
      length (finder_watches (run as s)) =
        length (finder_watches s) + (if \<not> isWatching s \<and> (\<exists>a \<in> set as. demands a) then 1 else 0)
    \<and> (\<forall>ob \<in> set (drop (length (observables s)) (observables (run as s))).
          \<exists>op. ob = Observable (shared_subject s) op))
   \<and> (\<forall>c c'. live_watch c (run bs initial) \<and> live_watch c' (run bs initial) \<longrightarrow> c = c')
   \<and> (isWatching (run bs initial) \<longleftrightarrow> (\<exists>c. live_watch c (run bs initial)))"
proof (intro conjI impI allI)
  assume n: "StopWatching \<notin> set as"
  from run_shared [OF n, of s]
  show "length (finder_watches (run as s)) =
        length (finder_watches s) + (if \<not> isWatching s \<and> (\<exists>a \<in> set as. demands a) then 1 else 0)"
    by simp
next
  assume n: "StopWatching \<notin> set as"
  from run_shared [OF n, of s] obtain obs' where "observables (run as s) = observables s @ obs'"
    and "\<forall>ob \<in> set obs'. \<exists>op. ob = Observable (shared_subject s) op" by blast
  then show "\<forall>ob \<in> set (drop (length (observables s)) (observables (run as s))).
          \<exists>op. ob = Observable (shared_subject s) op"
    by simp
next
  fix c c'
  assume "live_watch c (run bs initial) \<and> live_watch c' (run bs initial)"
  with wf_reachable [of bs] show "c = c'" by (blast intro: live_unique)
next
  show "isWatching (run bs initial) \<longleftrightarrow> (\<exists>c. live_watch c (run bs initial))"
    by (rule live_iff_watching) (rule wf_reachable)
qed

text \<open>C3 on a new instance asked for four streams.\<close>

theorem C3_one_shared_session_witness:
  "StopWatching \<notin> set [Watch ''render'', Watch ''lint'', PackagesStream, Watch ''render'']
   \<and> length (finder_watches (run [Watch ''render'', Watch ''lint'', PackagesStream, Watch ''render''] initial)) = 1
   \<and> observables (run [Watch ''render'', Watch ''lint'', PackagesStream, Watch ''render''] initial) =
       [Observable 0 (MergeMapImplementations ''render''), Observable 0 (MergeMapImplementations ''lint''),
        Observable 0 MapMetadata, Observable 0 (MergeMapImplementations ''render'')]"
proof -
  have n: "StopWatching \<notin> set [Watch ''render'', Watch ''lint'', PackagesStream, Watch ''render'']"
    by simp
  note t = C3_one_shared_session [of "[Watch ''render'', Watch ''lint'', PackagesStream, Watch ''render'']"
      initial "[]", THEN conjunct1, rule_format, OF n, THEN conjunct1]
  have i: "\<not> isWatching initial" by (simp add: isWatching_def initial_def)
  from t i have l: "length (finder_watches (run [Watch ''render'', Watch ''lint'', PackagesStream, Watch ''render''] initial)) = 1"
    by (simp add: initial_def)
  have o: "observables (run [Watch ''render'', Watch ''lint'', PackagesStream, Watch ''render''] initial) =
       [Observable 0 (MergeMapImplementations ''render''), Observable 0 (MergeMapImplementations ''lint''),
        Observable 0 MapMetadata, Observable 0 (MergeMapImplementations ''render'')]"
    by (simp add: run_def initial_def watch_def packagesStream_def packageSubject_def)
  from n l o show ?thesis by simp
qed

section \<open>The promises pending for a subscriber\<close>

lemma filter_update_split:
  assumes "p < length ps"
  shows "filter Q (ps[p := x]) =
           filter Q (take p ps) @ (if Q x then [x] else []) @ filter Q (drop (Suc p) ps)"
proof -
  from assms have "ps[p := x] = take p ps @ x # drop (Suc p) ps"
    by (rule upd_conv_take_nth_drop)
  then show ?thesis by simp
qed

lemma filter_nth_split:
  assumes "p < length ps"
  shows "filter Q ps =
           filter Q (take p ps) @ (if Q (ps ! p) then [ps ! p] else []) @ filter Q (drop (Suc p) ps)"
proof -
  from assms have "ps = take p ps @ ps ! p # drop (Suc p) ps"
    by (rule id_take_nth_drop)
  then have "filter Q ps = filter Q (take p ps @ ps ! p # drop (Suc p) ps)" by simp
  then show ?thesis by simp
qed

lemma pending_for_cong: "promises s' = promises s \<Longrightarrow> pending_for sid s' = pending_for sid s"
  by (simp add: pending_for_def)


lemma pending_for_settled_other:
  assumes "promises s' = (promises s)[p := (promises s ! p)\<lparr>settled := True\<rparr>]"
    and "p < length (promises s)" and "target (promises s ! p) \<noteq> sid"
  shows "pending_for sid s' = pending_for sid s"
proof -
  let ?Q = "\<lambda>q. target q = sid \<and> \<not> settled q"
  note f = filter_update_split [OF assms(2), of ?Q "(promises s ! p)\<lparr>settled := True\<rparr>"]
  note g = filter_nth_split [OF assms(2), of ?Q]
  from assms(3) have "filter ?Q ((promises s)[p := (promises s ! p)\<lparr>settled := True\<rparr>]) =
      filter ?Q (take p (promises s)) @ filter ?Q (drop (Suc p) (promises s))"
    by (simp add: f)
  also from assms(3) have "\<dots> = filter ?Q (promises s)"
    using g by simp
  finally have "filter ?Q ((promises s)[p := (promises s ! p)\<lparr>settled := True\<rparr>]) =
      filter ?Q (promises s)" .
  then show ?thesis by (simp add: pending_for_def assms(1))
qed

lemma pending_for_settled_single:
  assumes "promises s' = (promises s)[p := (promises s ! p)\<lparr>settled := True\<rparr>]"
    and "p < length (promises s)" and "target (promises s ! p) = sid"
    and "\<not> settled (promises s ! p)" and "pending_for sid s = [x]"
  shows "pending_for sid s' = []"
proof -
  let ?Q = "\<lambda>q. target q = sid \<and> \<not> settled q"
  note f = filter_update_split [OF assms(2), of ?Q "(promises s ! p)\<lparr>settled := True\<rparr>"]
  note g = filter_nth_split [OF assms(2), of ?Q]
  from assms(3,4) have q: "?Q (promises s ! p)" by simp
  from assms(5) have "length (map outcome (filter ?Q (promises s))) = 1"
    by (simp add: pending_for_def)
  then have "length (filter ?Q (promises s)) = 1" by simp
  then have "length (filter ?Q (take p (promises s)) @ [promises s ! p] @
                 filter ?Q (drop (Suc p) (promises s))) = 1"
    using g q by simp
  then have "filter ?Q (take p (promises s)) = [] \<and> filter ?Q (drop (Suc p) (promises s)) = []"
    by simp
  with f have "filter ?Q ((promises s)[p := (promises s ! p)\<lparr>settled := True\<rparr>]) = []"
    by simp
  then show ?thesis by (simp add: pending_for_def assms(1))
qed


lemma pending_for_member:
  "p < length (promises s) \<Longrightarrow> \<not> settled (promises s ! p) \<Longrightarrow>
   outcome (promises s ! p) \<in> set (pending_for (target (promises s ! p)) s)"
  by (auto simp: pending_for_def intro!: image_eqI [of _ _ "promises s ! p"])

lemma pending_for_fresh:
  assumes "wf_promises s"
  shows "pending_for (length (subscribers s)) s = []"
proof -
  from assms have "\<forall>p \<in> set (promises s). target p \<noteq> length (subscribers s)"
    by (auto simp: wf_promises_def)
  then have "filter (\<lambda>p. target p = length (subscribers s) \<and> \<not> settled p) (promises s) = []"
    by (simp add: filter_empty_conv)
  then show ?thesis by (simp add: pending_for_def)
qed

section \<open>A finder that never calls the listener\<close>

lemma quiet_initial: "quiet initial"
  by (simp add: quiet_def initial_def)

lemma quiet_same:
  assumes "quiet s" "\<forall>b \<in> set (subjects t). bs_value b = []"
    "promises t = promises s" "subscribers t = subscribers s"
  shows "quiet t"
proof -
  have p: "\<And>sid. pending_for sid t = pending_for sid s"
    using assms(3) by (rule pending_for_cong)
  from assms show ?thesis
    unfolding quiet_def by (simp add: p cong: operator.case_cong)
qed

lemma packageSubject_quiet_frame:
  "promises (snd (packageSubject s)) = promises s"
  "subscribers (snd (packageSubject s)) = subscribers s"
  "set (subjects (snd (packageSubject s))) \<subseteq> insert \<lparr>bs_value = [], observers = []\<rparr> (set (subjects s))"
  by (cases "activeWatch s"; auto simp: packageSubject_def Let_def)+

lemma quiet_demand:
  assumes "quiet s"
  shows "quiet ((snd (packageSubject s))\<lparr>observables := obs\<rparr>)"
proof (rule quiet_same [OF assms])
  from assms have "\<forall>b \<in> set (subjects s). bs_value b = []" by (simp add: quiet_def)
  with packageSubject_quiet_frame(3) [of s]
  show "\<forall>b \<in> set (subjects ((snd (packageSubject s))\<lparr>observables := obs\<rparr>)). bs_value b = []"
    by auto
qed (simp_all add: packageSubject_quiet_frame)

lemma quiet_stopWatching:
  assumes "quiet s"
  shows "quiet (stopWatching s)"
proof (rule quiet_same [OF assms])
  from assms show "\<forall>b \<in> set (subjects (stopWatching s)). bs_value b = []"
    by (cases "activeWatch s") (simp_all add: stopWatching_def quiet_def)
qed (cases "activeWatch s"; simp add: stopWatching_def)+

lemma quiet_load:
  assumes "quiet s"
  shows "quiet (snd (PluginHooker_load hook found s))"
proof (rule quiet_same [OF assms])
  from assms show "\<forall>b \<in> set (subjects (snd (PluginHooker_load hook found s))). bs_value b = []"
    by (simp add: quiet_def)
qed simp_all


lemma quietI:
  assumes "\<And>b. b \<in> set (subjects s) \<Longrightarrow> bs_value b = []"
    and "\<And>p. p \<in> set (promises s) \<Longrightarrow> outcome p = Inr []"
    and "\<And>p. p \<in> set (promises s) \<Longrightarrow>
           \<exists>hook. oper (subscribers s ! target p) = MergeMapImplementations hook"
    and "\<And>sid. sid < length (subscribers s) \<Longrightarrow> oper (subscribers s ! sid) = MapMetadata \<Longrightarrow>
           received (subscribers s ! sid) = [Metadata []]"
    and "\<And>sid hook. sid < length (subscribers s) \<Longrightarrow>
           oper (subscribers s ! sid) = MergeMapImplementations hook \<Longrightarrow>
           (received (subscribers s ! sid) = [] \<and> pending_for sid s = [Inr []])
         \<or> (received (subscribers s ! sid) = [Extensions []] \<and> pending_for sid s = [])"
  shows "quiet s"
  unfolding quiet_def using assms by (simp split: operator.splits)

lemma quiet_subjects: "quiet s \<Longrightarrow> b \<in> set (subjects s) \<Longrightarrow> bs_value b = []"
  by (simp add: quiet_def)

lemma quiet_promises:
  "quiet s \<Longrightarrow> p \<in> set (promises s) \<Longrightarrow>
   outcome p = Inr [] \<and> (\<exists>hook. oper (subscribers s ! target p) = MergeMapImplementations hook)"
  by (simp add: quiet_def)

lemma quiet_map:
  "quiet s \<Longrightarrow> sid < length (subscribers s) \<Longrightarrow> oper (subscribers s ! sid) = MapMetadata \<Longrightarrow>
   received (subscribers s ! sid) = [Metadata []]"
  by (auto simp: quiet_def split: operator.splits)

lemma quiet_merge:
  "quiet s \<Longrightarrow> sid < length (subscribers s) \<Longrightarrow>
   oper (subscribers s ! sid) = MergeMapImplementations hook \<Longrightarrow>
   (received (subscribers s ! sid) = [] \<and> pending_for sid s = [Inr []])
   \<or> (received (subscribers s ! sid) = [Extensions []] \<and> pending_for sid s = [])"
  by (auto simp: quiet_def split: operator.splits)

lemma oper_received_update:
  "oper (xs[i := (xs ! i)\<lparr>received := r\<rparr>] ! j) = oper (xs ! j)"
  by (cases "i = j"; cases "i < length xs"; simp add: list_update_beyond)

lemma quiet_settle:
  assumes w: "well_formed s" and q: "quiet s"
  shows "quiet (settle p s)"
proof (cases "p < length (promises s) \<and> \<not> settled (promises s ! p)")
  case False
  then have "settle p s = s" by (rule settle_noop)
  with q show ?thesis by simp
next
  case True
  define t where "t = target (promises s ! p)"
  from True have m: "promises s ! p \<in> set (promises s)" by simp
  from w m have tl: "t < length (subscribers s)"
    by (auto simp: well_formed_def wf_promises_def t_def)
  from w tl have f: "failed (subscribers s ! t) = None"
    by (simp add: well_formed_def wf_subscribers_def)
  from quiet_promises [OF q m] obtain hook where o: "outcome (promises s ! p) = Inr []"
    and op: "oper (subscribers s ! t) = MergeMapImplementations hook"
    by (auto simp: t_def)
  define r where "r = s\<lparr>promises := (promises s)[p := (promises s ! p)\<lparr>settled := True\<rparr>],
       subscribers := (subscribers s)[t :=
         (subscribers s ! t)\<lparr>received := received (subscribers s ! t) @ [Extensions []]\<rparr>]\<rparr>"
  from True tl f o have e: "settle p s = r"
    unfolding r_def t_def by (simp add: settle_Inr)
  have pr: "promises r = (promises s)[p := (promises s ! p)\<lparr>settled := True\<rparr>]"
    by (simp add: r_def)
  have sr: "subscribers r = (subscribers s)[t :=
         (subscribers s ! t)\<lparr>received := received (subscribers s ! t) @ [Extensions []]\<rparr>]"
    by (simp add: r_def)
  have opr: "\<And>j. oper (subscribers r ! j) = oper (subscribers s ! j)"
    unfolding sr by (rule oper_received_update)
  have lr: "length (subscribers r) = length (subscribers s)" by (simp add: sr)
  have "quiet r"
  proof (rule quietI)
    fix b assume "b \<in> set (subjects r)"
    then have "b \<in> set (subjects s)" by (simp add: r_def)
    with q show "bs_value b = []" by (rule quiet_subjects)
  next
    fix x assume "x \<in> set (promises r)"
    then have "x = (promises s ! p)\<lparr>settled := True\<rparr> \<or> x \<in> set (promises s)"
      unfolding pr using set_update_subset_insert by fastforce
    with o quiet_promises [OF q] show "outcome x = Inr []" by auto
  next
    fix x assume "x \<in> set (promises r)"
    then have "x = (promises s ! p)\<lparr>settled := True\<rparr> \<or> x \<in> set (promises s)"
      unfolding pr using set_update_subset_insert by fastforce
    with op quiet_promises [OF q] have "\<exists>hook. oper (subscribers s ! target x) = MergeMapImplementations hook"
      by (auto simp: t_def)
    then show "\<exists>hook. oper (subscribers r ! target x) = MergeMapImplementations hook"
      by (simp add: opr)
  next
    fix sid assume a: "sid < length (subscribers r)" "oper (subscribers r ! sid) = MapMetadata"
    with op have "sid \<noteq> t" by (auto simp: opr)
    then have "received (subscribers r ! sid) = received (subscribers s ! sid)"
      by (simp add: sr)
    with a quiet_map [OF q, of sid] show "received (subscribers r ! sid) = [Metadata []]"
      by (simp add: opr lr)
  next
    fix sid hook'
    assume a: "sid < length (subscribers r)" "oper (subscribers r ! sid) = MergeMapImplementations hook'"
    then have a': "sid < length (subscribers s)" "oper (subscribers s ! sid) = MergeMapImplementations hook'"
      by (simp_all add: opr lr)
    show "(received (subscribers r ! sid) = [] \<and> pending_for sid r = [Inr []])
         \<or> (received (subscribers r ! sid) = [Extensions []] \<and> pending_for sid r = [])"
    proof (cases "sid = t")
      case False
      then have "received (subscribers r ! sid) = received (subscribers s ! sid)"
        by (simp add: sr)
      moreover from False True have "pending_for sid r = pending_for sid s"
        by (intro pending_for_settled_other [OF pr]) (simp_all add: t_def)
      ultimately show ?thesis using quiet_merge [OF q a'] by simp
    next
      case same: True
      from True have "outcome (promises s ! p) \<in> set (pending_for t s)"
        unfolding t_def by (intro pending_for_member) simp_all
      then have "pending_for t s \<noteq> []" by auto
      with quiet_merge [OF q a'] same have b: "received (subscribers s ! t) = []"
        and c: "pending_for t s = [Inr []]" by auto
      from True c have "pending_for t r = []"
        by (intro pending_for_settled_single [OF pr]) (simp_all add: t_def)
      moreover from tl b have "received (subscribers r ! t) = [Extensions []]"
        by (simp add: sr)
      ultimately show ?thesis using same by simp
    qed
  qed
  with e show ?thesis by simp
qed


lemma quiet_extend:
  assumes q: "quiet s" and w: "wf_promises s"
    and sj: "\<And>b. b \<in> set (subjects r) \<Longrightarrow> bs_value b = []"
    and sb: "subscribers r = subscribers s @ [nw]"
    and nw: "(oper nw = MapMetadata \<and> received nw = [Metadata []] \<and> promises r = promises s)
       \<or> (\<exists>hook. oper nw = MergeMapImplementations hook \<and> received nw = []
             \<and> promises r = promises s @
                 [\<lparr>target = length (subscribers s), outcome = Inr [], settled = False\<rparr>])"
  shows "quiet r"
proof (rule quietI)
  fix b assume "b \<in> set (subjects r)"
  then show "bs_value b = []" by (rule sj)
next
  fix x assume "x \<in> set (promises r)"
  with nw have "x \<in> set (promises s)
      \<or> x = \<lparr>target = length (subscribers s), outcome = Inr [], settled = False\<rparr>"
    by auto
  with quiet_promises [OF q] show "outcome x = Inr []" by auto
next
  fix x assume x: "x \<in> set (promises r)"
  show "\<exists>hook. oper (subscribers r ! target x) = MergeMapImplementations hook"
  proof (cases "x \<in> set (promises s)")
    case True
    with w have "target x < length (subscribers s)" by (simp add: wf_promises_def)
    then have "subscribers r ! target x = subscribers s ! target x"
      by (simp add: sb nth_append)
    with quiet_promises [OF q True] show ?thesis by simp
  next
    case False
    with x nw obtain hook where "oper nw = MergeMapImplementations hook"
      and "x = \<lparr>target = length (subscribers s), outcome = Inr [], settled = False\<rparr>"
      by auto
    then show ?thesis by (simp add: sb)
  qed
next
  fix sid assume a: "sid < length (subscribers r)" "oper (subscribers r ! sid) = MapMetadata"
  show "received (subscribers r ! sid) = [Metadata []]"
  proof (cases "sid < length (subscribers s)")
    case True
    then have "subscribers r ! sid = subscribers s ! sid" by (simp add: sb nth_append)
    with a True quiet_map [OF q, of sid] show ?thesis by simp
  next
    case False
    with a have "sid = length (subscribers s)" by (simp add: sb)
    with a nw show ?thesis by (auto simp: sb)
  qed
next
  fix sid hook'
  assume a: "sid < length (subscribers r)" "oper (subscribers r ! sid) = MergeMapImplementations hook'"
  show "(received (subscribers r ! sid) = [] \<and> pending_for sid r = [Inr []])
         \<or> (received (subscribers r ! sid) = [Extensions []] \<and> pending_for sid r = [])"
  proof (cases "sid < length (subscribers s)")
    case True
    then have e: "subscribers r ! sid = subscribers s ! sid" by (simp add: sb nth_append)
    from nw True have "pending_for sid r = pending_for sid s"
      by (auto simp: pending_for_def)
    with a e True quiet_merge [OF q, of sid hook'] show ?thesis by simp
  next
    case False
    with a have i: "sid = length (subscribers s)" by (simp add: sb)
    with a nw have r: "received nw = []" and p: "promises r = promises s @
                 [\<lparr>target = length (subscribers s), outcome = Inr [], settled = False\<rparr>]"
      by (auto simp: sb)
    from p have "pending_for sid r = pending_for sid s @ [Inr []]"
      unfolding i by (simp add: pending_for_def)
    with pending_for_fresh [OF w] i r show ?thesis by (simp add: sb)
  qed
qed

lemma getImplementations_Nil: "getImplementations [] hook = Inr []"
  by (simp add: getImplementations_def)

lemma quiet_subscribe:
  assumes w: "well_formed s" and q: "quiet s"
  shows "quiet (snd (subscribe ob s))"
proof (cases ob)
  case (Observable subj op)
  show ?thesis
  proof (cases "subj < length (subjects s)")
    case False
    with Observable q show ?thesis by (simp add: subscribe_def)
  next
    case True
    define sid where "sid = length (subscribers s)"
    define t where "t = s\<lparr>subscribers := subscribers s @
                    [\<lparr>source = subj, oper = op, received = [], failed = None\<rparr>],
                 subjects := (subjects s)[subj := (subjects s ! subj)
                    \<lparr>observers := observers (subjects s ! subj) @ [sid]\<rparr>]\<rparr>"
    from True q have v: "bs_value (subjects s ! subj) = []" by (simp add: quiet_subjects)
    from Observable True v have e: "snd (subscribe ob s) = deliver [] sid t"
      by (simp add: subscribe_def Let_def t_def sid_def)
    have ts: "sid < length (subscribers t)" "failed (subscribers t ! sid) = None"
      "oper (subscribers t ! sid) = op"
      by (simp_all add: t_def sid_def)
    from w have wp: "wf_promises s" by (simp add: well_formed_def)
    have sj: "\<And>b. b \<in> set (subjects t) \<Longrightarrow> bs_value b = []"
    proof -
      fix b assume "b \<in> set (subjects t)"
      then have "b = (subjects s ! subj)\<lparr>observers := observers (subjects s ! subj) @ [sid]\<rparr>
          \<or> b \<in> set (subjects s)"
        unfolding t_def using set_update_subset_insert by fastforce
      with v q show "bs_value b = []" by (auto simp: quiet_subjects)
    qed
    have "quiet (deliver [] sid t)"
    proof (cases op)
      case MapMetadata
      with ts have d: "deliver [] sid t = t\<lparr>subscribers := (subscribers t)[sid := (subscribers t ! sid)
           \<lparr>received := received (subscribers t ! sid) @ [Metadata (map metadata [])]\<rparr>]\<rparr>"
        by (simp add: deliver_map)
      show ?thesis
      proof (rule quiet_extend [OF q wp])
        show "subscribers (deliver [] sid t) = subscribers s @
            [\<lparr>source = subj, oper = op, received = [Metadata []], failed = None\<rparr>]"
          by (subst d) (simp add: t_def sid_def)
        show "(oper \<lparr>source = subj, oper = op, received = [Metadata []], failed = None\<rparr> = MapMetadata
             \<and> received \<lparr>source = subj, oper = op, received = [Metadata []], failed = None\<rparr> = [Metadata []]
             \<and> promises (deliver [] sid t) = promises s)
          \<or> (\<exists>hook. oper \<lparr>source = subj, oper = op, received = [Metadata []], failed = None\<rparr> =
                 MergeMapImplementations hook
             \<and> received \<lparr>source = subj, oper = op, received = [Metadata []], failed = None\<rparr> = []
             \<and> promises (deliver [] sid t) = promises s @
                 [\<lparr>target = length (subscribers s), outcome = Inr [], settled = False\<rparr>])"
          by (subst d) (simp add: t_def MapMetadata)
      qed (simp add: sj)
    next
      case (MergeMapImplementations hook)
      with ts have d: "deliver [] sid t = t\<lparr>promises := promises t @
           [\<lparr>target = sid, outcome = getImplementations [] hook, settled = False\<rparr>]\<rparr>"
        by (simp add: deliver_merge)
      show ?thesis
      proof (rule quiet_extend [OF q wp])
        show "subscribers (deliver [] sid t) = subscribers s @
            [\<lparr>source = subj, oper = op, received = [], failed = None\<rparr>]"
          by (subst d) (simp add: t_def)
        show "(oper \<lparr>source = subj, oper = op, received = [], failed = None\<rparr> = MapMetadata
             \<and> received \<lparr>source = subj, oper = op, received = [], failed = None\<rparr> = [Metadata []]
             \<and> promises (deliver [] sid t) = promises s)
          \<or> (\<exists>hook. oper \<lparr>source = subj, oper = op, received = [], failed = None\<rparr> =
                 MergeMapImplementations hook
             \<and> received \<lparr>source = subj, oper = op, received = [], failed = None\<rparr> = []
             \<and> promises (deliver [] sid t) = promises s @
                 [\<lparr>target = length (subscribers s), outcome = Inr [], settled = False\<rparr>])"
          by (subst d) (simp add: t_def sid_def MergeMapImplementations getImplementations_Nil)
      qed (simp add: sj)
    qed
    with e show ?thesis by simp
  qed
qed

lemma quiet_exec:
  assumes "well_formed s" "quiet s" "\<not> finder_event a"
  shows "quiet (exec a s)"
proof (cases a)
  case (Watch hook)
  with quiet_demand [OF assms(2)] show ?thesis by (simp add: watch_def case_prod_beta)
next
  case PackagesStream
  with quiet_demand [OF assms(2)] show ?thesis by (simp add: packagesStream_def case_prod_beta)
next
  case StopWatching
  with assms show ?thesis by (simp add: quiet_stopWatching)
next
  case (Load hook found)
  with assms show ?thesis by (simp add: quiet_load)
next
  case (Subscribe n)
  with assms show ?thesis by (simp add: quiet_subscribe)
next
  case (FinderEmits c P)
  with assms show ?thesis by simp
next
  case (Settle p)
  with assms show ?thesis by (simp add: quiet_settle)
qed

lemma quiet_run:
  "well_formed s \<Longrightarrow> quiet s \<Longrightarrow> \<forall>a \<in> set as. \<not> finder_event a \<Longrightarrow> quiet (run as s)"
proof (induction as arbitrary: s)
  case Nil
  then show ?case by (simp add: run_Nil)
next
  case (Cons a as)
  from Cons.prems have "quiet (exec a s)" by (intro quiet_exec) simp_all
  moreover from Cons.prems have "well_formed (exec a s)" by (intro wf_exec)
  ultimately show ?case using Cons.prems by (simp add: run_Cons Cons.IH)
qed

text \<open>
  Claim C9, as the program has it. In a history in which the finder never calls a
  listener, every subscriber of \<^verbatim>\<open>packagesStream\<close> has received exactly one emission,
  the empty metadata list, and every subscriber of \<^verbatim>\<open>watch(hook)\<close> either has the
  promise of the empty package list pending and has received nothing, or has received
  exactly one emission, the empty extension list.
\<close>

theorem C9_silent_source_empty_list:
  "(\<forall>a \<in> set as. \<not> finder_event a) \<longrightarrow>
     (\<forall>sid < length (subscribers (run as initial)).
        case oper (subscribers (run as initial) ! sid) of
          MapMetadata \<Rightarrow> received (subscribers (run as initial) ! sid) = [Metadata []]
        | MergeMapImplementations hook \<Rightarrow>
            (received (subscribers (run as initial) ! sid) = []
               \<and> pending_for sid (run as initial) = [Inr []])
          \<or> (received (subscribers (run as initial) ! sid) = [Extensions []]
               \<and> pending_for sid (run as initial) = []))"
proof (intro impI)
  assume "\<forall>a \<in> set as. \<not> finder_event a"
  with wf_initial quiet_initial have "quiet (run as initial)" by (rule quiet_run)
  then show "\<forall>sid < length (subscribers (run as initial)).
        case oper (subscribers (run as initial) ! sid) of
          MapMetadata \<Rightarrow> received (subscribers (run as initial) ! sid) = [Metadata []]
        | MergeMapImplementations hook \<Rightarrow>
            (received (subscribers (run as initial) ! sid) = []
               \<and> pending_for sid (run as initial) = [Inr []])
          \<or> (received (subscribers (run as initial) ! sid) = [Extensions []]
               \<and> pending_for sid (run as initial) = [])"
    by (simp add: quiet_def)
qed

text \<open>
  Claim C9 as the specification states it says that such a subscriber receives no
  emission at all. The subject is created with the empty list
  (\<^verbatim>\<open>new Rx.BehaviorSubject([] as IPackage[])\<close>) and hands it to every new subscriber:
  with no call of the listener in the history, a subscriber of \<^verbatim>\<open>packagesStream\<close> has
  received the empty metadata list, and a subscriber of \<^verbatim>\<open>watch(hook)\<close> the empty
  extension list once its promise has settled.
\<close>

theorem C9_silent_source_counterexample:
  "received (subscribers (run [PackagesStream, Subscribe 0] initial) ! 0) = [Metadata []]
   \<and> received (subscribers (run [Watch ''render'', Subscribe 0, Settle 0] initial) ! 0) = [Extensions []]"
  by (simp add: run_def initial_def watch_def packagesStream_def packageSubject_def subscribe_def
        deliver_def settle_def getImplementations_def)


text \<open>C9 on a new instance with a subscriber of each kind.\<close>

theorem C9_silent_source_empty_list_witness:
  "length (subscribers (run [Watch ''render'', Subscribe 0, PackagesStream, Subscribe 1, Settle 0] initial)) = 2
   \<and> received (subscribers (run [Watch ''render'', Subscribe 0, PackagesStream, Subscribe 1, Settle 0] initial) ! 0)
       = [Extensions []]
   \<and> received (subscribers (run [Watch ''render'', Subscribe 0, PackagesStream, Subscribe 1, Settle 0] initial) ! 1)
       = [Metadata []]"
proof -
  define tr where "tr = [Watch ''render'', Subscribe 0, PackagesStream, Subscribe 1, Settle 0]"
  have n: "\<forall>a \<in> set tr. \<not> finder_event a" by (simp add: tr_def)
  have r: "run tr initial =
    \<lparr>activeWatch = Some \<lparr>close = 0, subject = 0\<rparr>,
     subjects = [\<lparr>bs_value = [], observers = [0, 1]\<rparr>],
     finder_watches = [\<lparr>listener_subject = 0, cancelled = False\<rparr>],
     find_calls = 0,
     observables = [Observable 0 (MergeMapImplementations ''render''), Observable 0 MapMetadata],
     subscribers = [\<lparr>source = 0, oper = MergeMapImplementations ''render'',
                      received = [Extensions []], failed = None\<rparr>,
                    \<lparr>source = 0, oper = MapMetadata, received = [Metadata []], failed = None\<rparr>],
     promises = [\<lparr>target = 0, outcome = Inr [], settled = True\<rparr>]\<rparr>"
    by (simp add: tr_def run_def initial_def watch_def packagesStream_def packageSubject_def
          subscribe_def deliver_def settle_def getImplementations_def)
  have l: "length (subscribers (run tr initial)) = 2" by (simp add: r)
  have o0: "oper (subscribers (run tr initial) ! 0) = MergeMapImplementations ''render''"
    by (simp add: r)
  have o1: "oper (subscribers (run tr initial) ! 1) = MapMetadata"
    by (simp add: r)
  have p0: "pending_for 0 (run tr initial) = []"
    by (simp add: r pending_for_def)
  note t = C9_silent_source_empty_list [of tr, THEN mp, OF n, rule_format]
  from t [of 0] l o0 p0 have a: "received (subscribers (run tr initial) ! 0) = [Extensions []]"
    by simp
  from t [of 1] l o1 have b: "received (subscribers (run tr initial) ! 1) = [Metadata []]"
    by simp
  from l a b show ?thesis unfolding tr_def by simp
qed

section \<open>What an update starts\<close>




section \<open>Updates and the order of emissions\<close>

lemma subject_next_observers [simp]:
  "observers (subjects (subject_next subj P s) ! i) = observers (subjects s ! i)"
  by (simp add: subject_next_def observers_bs_value_update)

lemma subject_next_subscriber_frame [simp]:
  "source (subscribers (subject_next subj P s) ! i) = source (subscribers s ! i)"
  "oper (subscribers (subject_next subj P s) ! i) = oper (subscribers s ! i)"
  "failed (subscribers (subject_next subj P s) ! i) = failed (subscribers s ! i)"
  by (simp_all add: subject_next_def)

lemma finder_emits_observers [simp]:
  "observers (subjects (finder_emits c P s) ! i) = observers (subjects s ! i)"
  by (simp add: finder_emits_def)

lemma finder_emits_subscriber_frame [simp]:
  "oper (subscribers (finder_emits c P s) ! i) = oper (subscribers s ! i)"
  by (simp add: finder_emits_def)

lemma settle_oper [simp]:
  "oper (subscribers (settle p s) ! i) = oper (subscribers s ! i)"
  by (simp add: settle_def Let_def nth_list_update split: sum.splits)


lemma attached_settle: "attached sid hook c s \<Longrightarrow> attached sid hook c (settle p s)"
  by (simp add: attached_def live_watch_def)














section \<open>Replay of the latest package list\<close>












end
